theory Spec2Isabelle
  imports Main "HOL-Library.Word"
begin

unbundle bit_operations_syntax

section \<open>JavaScript strings\<close>

text \<open>
  A JavaScript string is a sequence of UTF-16 code units. All string operations of the
  program (\<open>trim\<close>, \<open>split\<close>, \<open>slice\<close>, regular expressions without the \<open>u\<close> flag)
  work on code units.
\<close>

type_synonym cu = "16 word"
type_synonym jstring = "cu list"

definition str :: "string \<Rightarrow> jstring" where
  "str s = map of_char s"

definition is_digit :: "cu \<Rightarrow> bool" where
  \<comment> \<open>\<open>\d\<close>\<close>
  "is_digit c = (48 \<le> c \<and> c \<le> 57)"

definition is_alpha :: "cu \<Rightarrow> bool" where
  \<comment> \<open>\<open>[A-Za-z]\<close>, also \<open>[a-z]\<close> under the \<open>i\<close> flag\<close>
  "is_alpha c = ((65 \<le> c \<and> c \<le> 90) \<or> (97 \<le> c \<and> c \<le> 122))"

definition is_line_terminator :: "cu \<Rightarrow> bool" where
  "is_line_terminator c = (c = 0x0A \<or> c = 0x0D \<or> c = 0x2028 \<or> c = 0x2029)"

definition is_white_space :: "cu \<Rightarrow> bool" where
  "is_white_space c =
     (c = 0x09 \<or> c = 0x0B \<or> c = 0x0C \<or> c = 0x20 \<or> c = 0xA0 \<or> c = 0x1680 \<or>
      (0x2000 \<le> c \<and> c \<le> 0x200A) \<or> c = 0x202F \<or> c = 0x205F \<or> c = 0x3000 \<or>
      c = 0xFEFF)"

definition is_space :: "cu \<Rightarrow> bool" where
  \<comment> \<open>\<open>\s\<close>, and what \<open>trim\<close> strips: WhiteSpace and LineTerminator\<close>
  "is_space c = (is_white_space c \<or> is_line_terminator c)"

definition trimStart :: "jstring \<Rightarrow> jstring" where
  "trimStart s = dropWhile is_space s"

definition trimEnd :: "jstring \<Rightarrow> jstring" where
  "trimEnd s = rev (dropWhile is_space (rev s))"

definition trim :: "jstring \<Rightarrow> jstring" where
  "trim s = trimEnd (trimStart s)"

definition startsWith :: "jstring \<Rightarrow> jstring \<Rightarrow> bool" where
  "startsWith s p = (take (length p) s = p)"

definition endsWith :: "jstring \<Rightarrow> jstring \<Rightarrow> bool" where
  "endsWith s p = (length p \<le> length s \<and> drop (length s - length p) s = p)"

fun indexOf :: "jstring \<Rightarrow> cu \<Rightarrow> int" where
  "indexOf [] c = - 1"
| "indexOf (x # xs) c =
     (if x = c then 0 else (let r = indexOf xs c in if r = - 1 then - 1 else r + 1))"

definition lastIndexOf :: "jstring \<Rightarrow> cu \<Rightarrow> int" where
  "lastIndexOf s c =
     (let r = indexOf (rev s) c in if r = - 1 then - 1 else int (length s) - 1 - r)"

definition slice_from :: "jstring \<Rightarrow> int \<Rightarrow> jstring" where
  \<comment> \<open>\<open>s.slice(n)\<close>; a negative \<open>n\<close> counts from the end\<close>
  "slice_from s n = (if n < 0 then drop (nat (int (length s) + n)) s else drop (nat n) s)"

fun split_on :: "cu \<Rightarrow> jstring \<Rightarrow> jstring list" where
  \<comment> \<open>\<open>s.split(d)\<close> for a one-unit separator: never the empty array\<close>
  "split_on d [] = [[]]"
| "split_on d (c # cs) =
     (if c = d then [] # split_on d cs
      else (case split_on d cs of [] \<Rightarrow> [[c]] | l # ls \<Rightarrow> (c # l) # ls))"

section \<open>Regular expressions\<close>

text \<open>
  The regular expressions of the program, as syntax trees, and the backtracking matcher
  of ECMAScript restricted to what they use: anchors, one code unit of a class, a greedy
  or lazy repetition of a class with a minimum count, sequence, ordered alternative and
  numbered capture groups. The matcher is in continuation-passing style: the
  continuation is the rest of the pattern, and \<open>None\<close> makes the matcher backtrack
  to the most recent choice.
\<close>

datatype regex =
    Eps
  | Bol
  | Eol
  | Cls "cu \<Rightarrow> bool"
  | Rep bool nat "cu \<Rightarrow> bool"
  | Seq regex regex
  | Alt regex regex
  | Grp nat regex

type_synonym caps = "(nat \<times> jstring) list"

fun rep_greedy ::
  "(cu \<Rightarrow> bool) \<Rightarrow> nat \<Rightarrow> nat \<Rightarrow> jstring \<Rightarrow> (nat \<Rightarrow> jstring \<Rightarrow> 'r option) \<Rightarrow> 'r option" where
  "rep_greedy p n i [] k = (if n = 0 then k i [] else None)"
| "rep_greedy p n i (c # cs) k =
     (if p c then
        (case rep_greedy p (n - 1) (Suc i) cs k of
           Some r \<Rightarrow> Some r
         | None \<Rightarrow> if n = 0 then k i (c # cs) else None)
      else if n = 0 then k i (c # cs) else None)"

fun rep_lazy ::
  "(cu \<Rightarrow> bool) \<Rightarrow> nat \<Rightarrow> nat \<Rightarrow> jstring \<Rightarrow> (nat \<Rightarrow> jstring \<Rightarrow> 'r option) \<Rightarrow> 'r option" where
  "rep_lazy p n i [] k = (if n = 0 then k i [] else None)"
| "rep_lazy p n i (c # cs) k =
     (case (if n = 0 then k i (c # cs) else None) of
        Some r \<Rightarrow> Some r
      | None \<Rightarrow> if p c then rep_lazy p (n - 1) (Suc i) cs k else None)"

fun rmatch ::
  "regex \<Rightarrow> caps \<Rightarrow> nat \<Rightarrow> jstring \<Rightarrow> (caps \<Rightarrow> nat \<Rightarrow> jstring \<Rightarrow> 'r option) \<Rightarrow> 'r option" where
  "rmatch Eps cp i s k = k cp i s"
| "rmatch Bol cp i s k = (if i = 0 then k cp i s else None)"
| "rmatch Eol cp i s k = (if s = [] then k cp i s else None)"
| "rmatch (Cls p) cp i s k =
     (case s of [] \<Rightarrow> None | c # cs \<Rightarrow> if p c then k cp (Suc i) cs else None)"
| "rmatch (Rep g n p) cp i s k =
     (if g then rep_greedy p n i s (k cp) else rep_lazy p n i s (k cp))"
| "rmatch (Seq a b) cp i s k = rmatch a cp i s (\<lambda>cp' i' s'. rmatch b cp' i' s' k)"
| "rmatch (Alt a b) cp i s k =
     (case rmatch a cp i s k of Some r \<Rightarrow> Some r | None \<Rightarrow> rmatch b cp i s k)"
| "rmatch (Grp g a) cp i s k =
     rmatch a cp i s (\<lambda>cp' i' s'. k ((g, take (i' - i) s) # cp') i' s')"

record rmatch_result =
  m_index :: nat
  m_groups :: caps
  m_end :: nat
  m_rest :: jstring

definition match_at :: "regex \<Rightarrow> nat \<Rightarrow> jstring \<Rightarrow> rmatch_result option" where
  \<comment> \<open>a match starting exactly at index \<open>i\<close>, where \<open>s\<close> is the input from \<open>i\<close> on\<close>
  "match_at re i s =
     rmatch re [] i s
       (\<lambda>cp i' s'. Some \<lparr>m_index = i, m_groups = cp, m_end = i', m_rest = s'\<rparr>)"

fun search :: "regex \<Rightarrow> nat \<Rightarrow> jstring \<Rightarrow> rmatch_result option" where
  \<comment> \<open>\<open>re.exec\<close> from \<open>lastIndex = i\<close>: the leftmost start index that matches\<close>
  "search re i [] = match_at re i []"
| "search re i (c # cs) =
     (case match_at re i (c # cs) of Some r \<Rightarrow> Some r | None \<Rightarrow> search re (Suc i) cs)"

definition regex_test :: "regex \<Rightarrow> jstring \<Rightarrow> bool" where
  "regex_test re s = (search re 0 s \<noteq> None)"

definition group :: "nat \<Rightarrow> rmatch_result \<Rightarrow> jstring" where
  \<comment> \<open>\<open>m[n]\<close>; every group of the program's patterns takes part in every match\<close>
  "group n m = (case map_of (m_groups m) n of Some g \<Rightarrow> g | None \<Rightarrow> [])"

definition Opt :: "regex \<Rightarrow> regex" where
  \<comment> \<open>\<open>a?\<close>\<close>
  "Opt a = Alt a Eps"

definition Lit :: "cu \<Rightarrow> regex" where
  "Lit c = Cls (\<lambda>x. x = c)"

definition seqs :: "regex list \<Rightarrow> regex" where
  "seqs rs = foldr Seq rs Eps"

definition replace_first :: "regex \<Rightarrow> jstring \<Rightarrow> jstring \<Rightarrow> jstring" where
  \<comment> \<open>\<open>s.replace(re, by)\<close> for a pattern without the \<open>g\<close> flag\<close>
  "replace_first re s by =
     (case search re 0 s of None \<Rightarrow> s | Some m \<Rightarrow> take (m_index m) s @ by @ m_rest m)"

fun min_len :: "regex \<Rightarrow> nat" where
  "min_len Eps = 0"
| "min_len Bol = 0"
| "min_len Eol = 0"
| "min_len (Cls p) = 1"
| "min_len (Rep g n p) = n"
| "min_len (Seq a b) = min_len a + min_len b"
| "min_len (Alt a b) = min (min_len a) (min_len b)"
| "min_len (Grp g a) = min_len a"



section \<open>JSON.parse\<close>

text \<open>
  \<open>JSON.parse\<close> is a function of the platform. The model is a recursive-descent parser of
  the JSON grammar; \<open>None\<close> stands for the \<open>SyntaxError\<close> it throws. A number keeps its
  sign, its decimal digits and its decimal exponent, from which the only fact the program
  uses, whether the double it denotes is zero, is computed exactly. The recursion on
  nested values is bounded by a counter that starts above the length of the text; each
  recursive call follows at least one consumed code unit.
\<close>

datatype json =
    JNull
  | JBool bool
  | JNum bool nat int
  | JStr jstring
  | JArr "json list"
  | JObj "(jstring \<times> json) list"

definition skip_ws :: "jstring \<Rightarrow> jstring" where
  "skip_ws s = dropWhile (\<lambda>c. c = 0x20 \<or> c = 0x09 \<or> c = 0x0A \<or> c = 0x0D) s"

definition next_is :: "cu \<Rightarrow> jstring \<Rightarrow> bool" where
  "next_is c s = (case s of [] \<Rightarrow> False | x # _ \<Rightarrow> x = c)"

definition hex_val :: "cu \<Rightarrow> cu option" where
  "hex_val c =
     (if 48 \<le> c \<and> c \<le> 57 then Some (c - 48)
      else if 65 \<le> c \<and> c \<le> 70 then Some (c - 55)
      else if 97 \<le> c \<and> c \<le> 102 then Some (c - 87)
      else None)"

definition hex4 :: "jstring \<Rightarrow> cu option" where
  "hex4 s =
     (case map hex_val (take 4 s) of
        [Some a, Some b, Some c, Some d] \<Rightarrow>
          Some (push_bit 12 a OR push_bit 8 b OR push_bit 4 c OR d)
      | _ \<Rightarrow> None)"

definition unescape :: "cu \<Rightarrow> cu option" where
  "unescape c =
     (if c = 0x22 \<or> c = 0x5C \<or> c = 0x2F then Some c
      else if c = 0x62 then Some 0x08
      else if c = 0x66 then Some 0x0C
      else if c = 0x6E then Some 0x0A
      else if c = 0x72 then Some 0x0D
      else if c = 0x74 then Some 0x09
      else None)"

fun parse_string :: "nat \<Rightarrow> jstring \<Rightarrow> jstring \<Rightarrow> (jstring \<times> jstring) option" where
  \<comment> \<open>after the opening quote; the counter bounds the code units still to read\<close>
  "parse_string 0 acc s = None"
| "parse_string (Suc f) acc [] = None"
| "parse_string (Suc f) acc (c # r) =
     (if c = 0x22 then Some (acc, r)
      else if c = 0x5C then
        (case r of
           [] \<Rightarrow> None
         | e # r' \<Rightarrow>
             if e = 0x75 then
               (case hex4 r' of
                  None \<Rightarrow> None
                | Some u \<Rightarrow> parse_string f (acc @ [u]) (drop 4 r'))
             else
               (case unescape e of
                  None \<Rightarrow> None
                | Some u \<Rightarrow> parse_string f (acc @ [u]) r'))
      else if c < 0x20 then None
      else parse_string f (acc @ [c]) r)"

definition digits_val :: "jstring \<Rightarrow> nat" where
  "digits_val ds = foldl (\<lambda>a c. 10 * a + unat (c - 48)) 0 ds"

definition parse_number :: "jstring \<Rightarrow> (json \<times> jstring) option" where
  "parse_number s =
     (let neg = next_is 0x2D s;
          s1 = (if neg then tl s else s);
          ip = takeWhile is_digit s1;
          s2 = dropWhile is_digit s1;
          has_frac = next_is 0x2E s2;
          fp = (if has_frac then takeWhile is_digit (tl s2) else []);
          s3 = (if has_frac then dropWhile is_digit (tl s2) else s2);
          has_exp = (next_is 0x65 s3 \<or> next_is 0x45 s3);
          s4 = (if has_exp then tl s3 else s3);
          eneg = next_is 0x2D s4;
          s5 = (if has_exp \<and> (eneg \<or> next_is 0x2B s4) then tl s4 else s4);
          ep = (if has_exp then takeWhile is_digit s5 else []);
          s6 = (if has_exp then dropWhile is_digit s5 else s3);
          ev = (if eneg then - int (digits_val ep) else int (digits_val ep))
      in if ip = [] \<or> (1 < length ip \<and> hd ip = 48) \<or> (has_frac \<and> fp = []) \<or>
            (has_exp \<and> ep = [])
         then None
         else Some (JNum neg (digits_val (ip @ fp)) (ev - int (length fp)), s6))"

function (sequential) parse_value :: "nat \<Rightarrow> jstring \<Rightarrow> (json \<times> jstring) option"
  and parse_elements :: "nat \<Rightarrow> json list \<Rightarrow> jstring \<Rightarrow> (json \<times> jstring) option"
  and parse_members ::
    "nat \<Rightarrow> (jstring \<times> json) list \<Rightarrow> jstring \<Rightarrow> (json \<times> jstring) option" where
  "parse_value 0 s = None"
| "parse_value (Suc f) s =
     (if next_is 0x7B s then
        (if next_is 0x7D (skip_ws (tl s)) then Some (JObj [], tl (skip_ws (tl s)))
         else parse_members f [] (skip_ws (tl s)))
      else if next_is 0x5B s then
        (if next_is 0x5D (skip_ws (tl s)) then Some (JArr [], tl (skip_ws (tl s)))
         else parse_elements f [] (skip_ws (tl s)))
      else if next_is 0x22 s then
        (case parse_string (length s) [] (tl s) of
           None \<Rightarrow> None
         | Some (x, r) \<Rightarrow> Some (JStr x, r))
      else if startsWith s (str ''true'') then Some (JBool True, drop 4 s)
      else if startsWith s (str ''false'') then Some (JBool False, drop 5 s)
      else if startsWith s (str ''null'') then Some (JNull, drop 4 s)
      else parse_number s)"
| "parse_elements 0 acc s = None"
| "parse_elements (Suc f) acc s =
     (case parse_value f s of
        None \<Rightarrow> None
      | Some (v, r) \<Rightarrow>
          if next_is 0x2C (skip_ws r) then
            parse_elements f (acc @ [v]) (skip_ws (tl (skip_ws r)))
          else if next_is 0x5D (skip_ws r) then Some (JArr (acc @ [v]), tl (skip_ws r))
          else None)"
| "parse_members 0 acc s = None"
| "parse_members (Suc f) acc s =
     (if next_is 0x22 s then
        (case parse_string (length s) [] (tl s) of
           None \<Rightarrow> None
         | Some (key, r1) \<Rightarrow>
             if next_is 0x3A (skip_ws r1) then
               (case parse_value f (skip_ws (tl (skip_ws r1))) of
                  None \<Rightarrow> None
                | Some (v, r3) \<Rightarrow>
                    if next_is 0x2C (skip_ws r3) then
                      parse_members f (acc @ [(key, v)]) (skip_ws (tl (skip_ws r3)))
                    else if next_is 0x7D (skip_ws r3) then
                      Some (JObj (acc @ [(key, v)]), tl (skip_ws r3))
                    else None)
             else None)
      else None)"
  by pat_completeness auto

termination
  by (relation "measure (\<lambda>x. case x of Inl (f, s) \<Rightarrow> f | Inr (Inl (f, acc, s)) \<Rightarrow> f | Inr (Inr (f, acc, s)) \<Rightarrow> f)") auto

definition JSON_parse :: "jstring \<Rightarrow> json option" where
  "JSON_parse s =
     (case parse_value (Suc (length s)) (skip_ws s) of
        None \<Rightarrow> None
      | Some (v, r) \<Rightarrow> if skip_ws r = [] then Some v else None)"

definition get_field :: "json \<Rightarrow> jstring \<Rightarrow> json option" where
  \<comment> \<open>\<open>obj?.name\<close>: \<open>None\<close> is \<open>undefined\<close>; of duplicate keys the last one wins\<close>
  "get_field v name = (case v of JObj ms \<Rightarrow> map_of (rev ms) name | _ \<Rightarrow> None)"

fun truthy :: "json \<Rightarrow> bool" where
  "truthy JNull = False"
| "truthy (JBool b) = b"
| "truthy (JNum neg m e) =
     (if 0 \<le> e then 0 < m else 10 ^ nat (- e) < m * 2 ^ 1075)"
| "truthy (JStr s) = (s \<noteq> [])"
| "truthy (JArr xs) = True"
| "truthy (JObj ms) = True"

definition field_truthy :: "json \<Rightarrow> string \<Rightarrow> bool" where
  "field_truthy obj name = (case get_field obj (str name) of None \<Rightarrow> False | Some v \<Rightarrow> truthy v)"

section \<open>The token-stream extractor (src/lib/api.ts)\<close>

definition control_re :: regex where
  \<comment> \<open>\<open>/^[faed]:/i\<close>\<close>
  "control_re =
     seqs [Bol, Cls (\<lambda>c. c \<in> set (str ''faedFAED'')), Lit 0x3A]"

definition token_re :: regex where
  \<comment> \<open>\<open>/\d+:"([\s\S]*?)"/g\<close>\<close>
  "token_re =
     seqs [Rep True 1 is_digit, Lit 0x3A, Lit 0x22, Grp 1 (Rep False 0 (\<lambda>c. True)), Lit 0x22]"

definition index_re :: regex where
  \<comment> \<open>\<open>/^\d+:/\<close>\<close>
  "index_re = seqs [Bol, Rep True 1 is_digit, Lit 0x3A]"

lemma rep_greedy_cont:
  "rep_greedy p n i s k = Some r \<Longrightarrow>
   \<exists>j. n \<le> j \<and> j \<le> length s \<and> k (i + j) (drop j s) = Some r"
proof (induction s arbitrary: n i)
  case Nil
  then show ?case by (auto split: if_splits)
next
  case (Cons c cs)
  show ?case
  proof (cases "p c \<and> rep_greedy p (n - 1) (Suc i) cs k = Some r")
    case True
    then obtain j where "n - 1 \<le> j" "j \<le> length cs" "k (Suc i + j) (drop j cs) = Some r"
      using Cons.IH by blast
    then show ?thesis by (intro exI [of _ "Suc j"]) auto
  next
    case False
    with Cons.prems have "n = 0 \<and> k i (c # cs) = Some r"
      by (auto split: if_splits option.splits)
    then show ?thesis by (intro exI [of _ 0]) auto
  qed
qed

lemma rep_lazy_cont:
  "rep_lazy p n i s k = Some r \<Longrightarrow>
   \<exists>j. n \<le> j \<and> j \<le> length s \<and> k (i + j) (drop j s) = Some r"
proof (induction s arbitrary: n i)
  case Nil
  then show ?case by (auto split: if_splits)
next
  case (Cons c cs)
  show ?case
  proof (cases "n = 0 \<and> k i (c # cs) = Some r")
    case True
    then show ?thesis by (intro exI [of _ 0]) auto
  next
    case False
    with Cons.prems have "rep_lazy p (n - 1) (Suc i) cs k = Some r"
      by (auto split: if_splits option.splits)
    then obtain j where "n - 1 \<le> j" "j \<le> length cs" "k (Suc i + j) (drop j cs) = Some r"
      using Cons.IH by blast
    then show ?thesis by (intro exI [of _ "Suc j"]) auto
  qed
qed

lemma rmatch_cont:
  "rmatch re cp i s k = Some r \<Longrightarrow>
   \<exists>cp' j. min_len re \<le> j \<and> j \<le> length s \<and> k cp' (i + j) (drop j s) = Some r"
proof (induction re arbitrary: cp i s k)
  case Eps
  then show ?case by (intro exI [of _ cp] exI [of _ 0]) auto
next
  case Bol
  then show ?case by (intro exI [of _ cp] exI [of _ 0]) (auto split: if_splits)
next
  case Eol
  then show ?case by (intro exI [of _ cp] exI [of _ 0]) (auto split: if_splits)
next
  case (Cls p)
  then show ?case
    by (intro exI [of _ cp] exI [of _ 1]) (auto split: list.splits if_splits)
next
  case (Rep g n p)
  then show ?case
    using rep_greedy_cont [of p n i s "k cp" r] rep_lazy_cont [of p n i s "k cp" r]
    by (auto split: if_splits)
next
  case (Seq a b)
  from Seq.prems obtain cp1 j1 where a:
    "min_len a \<le> j1" "j1 \<le> length s" "rmatch b cp1 (i + j1) (drop j1 s) k = Some r"
    using Seq.IH(1) [of cp i s "\<lambda>cp' i' s'. rmatch b cp' i' s' k"] by auto
  from Seq.IH(2) [OF a(3)] obtain cp2 j2 where b:
    "min_len b \<le> j2" "j2 \<le> length (drop j1 s)"
    "k cp2 (i + j1 + j2) (drop j2 (drop j1 s)) = Some r"
    by blast
  show ?case
  proof (intro exI [of _ cp2] exI [of _ "j1 + j2"] conjI)
    show "min_len (Seq a b) \<le> j1 + j2" using a(1) b(1) by simp
    show "j1 + j2 \<le> length s" using a(2) b(2) by simp
    show "k cp2 (i + (j1 + j2)) (drop (j1 + j2) s) = Some r"
    proof -
      have "drop j2 (drop j1 s) = drop (j1 + j2) s" by (simp add: add.commute)
      moreover have "i + j1 + j2 = i + (j1 + j2)" by simp
      ultimately show ?thesis using b(3) by metis
    qed
  qed
next
  case (Alt a b)
  show ?case
  proof (cases "rmatch a cp i s k")
    case None
    with Alt.prems have "rmatch b cp i s k = Some r" by simp
    from Alt.IH(2) [OF this] obtain cp' j where
      "min_len b \<le> j" "j \<le> length s" "k cp' (i + j) (drop j s) = Some r" by blast
    then show ?thesis by (intro exI [of _ cp'] exI [of _ j]) simp
  next
    case (Some r')
    with Alt.prems have "rmatch a cp i s k = Some r" by simp
    from Alt.IH(1) [OF this] obtain cp' j where
      "min_len a \<le> j" "j \<le> length s" "k cp' (i + j) (drop j s) = Some r" by blast
    then show ?thesis by (intro exI [of _ cp'] exI [of _ j]) simp
  qed
next
  case (Grp g a)
  from Grp.prems show ?case
    using Grp.IH [of cp i s "\<lambda>cp' i' s'. k ((g, take (i' - i) s) # cp') i' s'"] by auto
qed

lemma match_at_rest:
  assumes "match_at re i s = Some m"
  shows "\<exists>j. min_len re \<le> j \<and> j \<le> length s \<and> m_rest m = drop j s \<and> m_end m = i + j \<and>
           m_index m = i"
proof -
  from assms have
    "rmatch re [] i s
       (\<lambda>cp i' s'. Some \<lparr>m_index = i, m_groups = cp, m_end = i', m_rest = s'\<rparr>) = Some m"
    by (simp add: match_at_def)
  from rmatch_cont [OF this] obtain cp' j where j:
    "min_len re \<le> j" "j \<le> length s"
    "Some \<lparr>m_index = i, m_groups = cp', m_end = i + j, m_rest = drop j s\<rparr> = Some m"
    by blast
  from j(3) have "m = \<lparr>m_index = i, m_groups = cp', m_end = i + j, m_rest = drop j s\<rparr>"
    by simp
  with j(1,2) show ?thesis by (intro exI [of _ j]) simp
qed

lemma search_rest:
  "search re i s = Some m \<Longrightarrow> 0 < min_len re \<Longrightarrow> length (m_rest m) < length s"
proof (induction s arbitrary: i)
  case Nil
  then have "match_at re i [] = Some m" by simp
  from match_at_rest [OF this] Nil.prems(2) show ?case by auto
next
  case (Cons c cs)
  show ?case
  proof (cases "match_at re i (c # cs)")
    case None
    with Cons.prems have "search re (Suc i) cs = Some m" by simp
    from Cons.IH [OF this Cons.prems(2)] show ?thesis by simp
  next
    case (Some m')
    with Cons.prems have "match_at re i (c # cs) = Some m" by simp
    from match_at_rest [OF this] obtain j where
      "min_len re \<le> j" "j \<le> length (c # cs)" "m_rest m = drop j (c # cs)" by blast
    with Cons.prems(2) show ?thesis by simp
  qed
qed

lemma min_len_token_re: "0 < min_len token_re"
  by (simp add: token_re_def seqs_def Lit_def)

function exec_tokens :: "nat \<Rightarrow> jstring \<Rightarrow> jstring list" where
  \<comment> \<open>\<open>while ((m = re.exec(raw)) !== null) tokens.push(m[1])\<close>, from \<open>lastIndex = i\<close>\<close>
  "exec_tokens i s =
     (case search token_re i s of
        None \<Rightarrow> []
      | Some m \<Rightarrow> group 1 m # exec_tokens (m_end m) (m_rest m))"
  by pat_completeness auto
termination
proof (relation "measure (\<lambda>(i, s). length s)")
  show "wf (measure (\<lambda>(i, s). length s))" by simp
next
  fix i s m
  assume "search token_re i s = Some m"
  from search_rest [OF this min_len_token_re]
  show "((m_end m, m_rest m), (i, s)) \<in> measure (\<lambda>(i, s). length s)" by simp
qed

declare exec_tokens.simps [simp del]

definition is_metadata :: "json \<Rightarrow> bool" where
  \<comment> \<open>\<open>obj?.toolCallId || obj?.toolName || obj?.messageId || obj?.finishReason\<close>\<close>
  "is_metadata obj =
     (field_truthy obj ''toolCallId'' \<or> field_truthy obj ''toolName'' \<or>
      field_truthy obj ''messageId'' \<or> field_truthy obj ''finishReason'')"

definition extractTextFromTokenStream :: "jstring \<Rightarrow> jstring" where
  \<comment> \<open>the guards in the order of the source; of the operations in the outer \<open>try\<close> only
      \<open>JSON.parse\<close> can throw, and its own handler falls through to \<open>return raw\<close>\<close>
  "extractTextFromTokenStream raw =
     (if regex_test control_re (trim raw) then []
      else
        let tokens = exec_tokens 0 raw in
        if tokens \<noteq> [] then concat tokens
        else
          let trimmed = trimStart raw in
          if regex_test index_re trimmed then
            (let afterIndex = replace_first index_re trimmed [];
                 firstBrace = indexOf afterIndex 0x7B;
                 lastBrace = lastIndexOf afterIndex 0x7D
             in if firstBrace \<noteq> - 1 \<and> lastBrace \<noteq> - 1 \<and> firstBrace < lastBrace
                then trim (slice_from afterIndex (lastBrace + 1))
                else [])
          else if startsWith trimmed (str ''{'') \<and> endsWith trimmed (str ''}'') then
            (case JSON_parse trimmed of
               None \<Rightarrow> raw
             | Some obj \<Rightarrow> if is_metadata obj then [] else raw)
          else raw)"

fun has_token_start :: "jstring \<Rightarrow> bool" where
  \<comment> \<open>a digit, a colon and a quote in a row: the place where a token could open\<close>
  "has_token_start (a # b # c # r) =
     ((is_digit a \<and> b = 0x3A \<and> c = 0x22) \<or> has_token_start (b # c # r))"
| "has_token_start r = False"

definition numbered_token :: "jstring \<times> jstring \<times> jstring \<Rightarrow> jstring" where
  \<comment> \<open>the text \<open>p\<close> before a token, and the token \<open>digits:"content"\<close> with index \<open>d\<close> and
      content \<open>c\<close>\<close>
  "numbered_token x = (case x of (p, d, c) \<Rightarrow> p @ d @ [0x3A, 0x22] @ c @ [0x22])"

definition escaped_frame :: jstring where
  \<comment> \<open>the frame \<open>7:"He said \"hi\""\<close>: one token whose quoted string holds two escaped
      quotes; \<open>0x5C\<close> is the backslash, \<open>0x22\<close> the quote\<close>
  "escaped_frame = str ''7:\"He said '' @ [0x5C, 0x22] @ str ''hi'' @ [0x5C, 0x22, 0x22]"

definition has_brace_pair :: "jstring \<Rightarrow> bool" where
  \<comment> \<open>a closing brace somewhere after the first opening brace\<close>
  "has_brace_pair s = (0x7D \<in> set (dropWhile (\<lambda>x. x \<noteq> 0x7B) s))"

section \<open>Properties of the matcher\<close>

lemma rep_greedy_maximal:
  assumes "\<And>j c cs. p c \<Longrightarrow> k j (c # cs) = None"
  shows "rep_greedy p n i s k =
           (if n \<le> length (takeWhile p s)
            then k (i + length (takeWhile p s)) (dropWhile p s) else None)"
proof (induction s arbitrary: n i)
  case Nil
  then show ?case by simp
next
  case (Cons c cs)
  show ?case
  proof (cases "p c")
    case False
    then show ?thesis by simp
  next
    case True
    show ?thesis
    proof (cases "n - 1 \<le> length (takeWhile p cs)")
      case le: True
      then have n: "n \<le> Suc (length (takeWhile p cs))" by simp
      show ?thesis
      proof (cases "k (Suc i + length (takeWhile p cs)) (dropWhile p cs)")
        case None
        with True le n show ?thesis by (simp add: Cons.IH assms)
      next
        case (Some r)
        with True le n show ?thesis by (simp add: Cons.IH)
      qed
    next
      case gt: False
      then have "\<not> n \<le> Suc (length (takeWhile p cs))" "n \<noteq> 0" by simp_all
      with True gt show ?thesis by (simp add: Cons.IH)
    qed
  qed
qed

lemma rep_lazy_any_first:
  "rep_lazy (\<lambda>c. True) 0 i s
     (\<lambda>i' s'. case s' of [] \<Rightarrow> None | c # cs \<Rightarrow> if c = q then Some (F i' cs) else None) =
   (if q \<in> set s
    then Some (F (i + length (takeWhile (\<lambda>x. x \<noteq> q) s)) (tl (dropWhile (\<lambda>x. x \<noteq> q) s)))
    else None)"
proof (induction s arbitrary: i)
  case Nil
  then show ?case by simp
next
  case (Cons c cs)
  then show ?case by (cases "c = q") auto
qed

lemma is_digit_colon [simp]: "\<not> is_digit 58"
  by (simp add: is_digit_def)

lemma is_digit_quote [simp]: "\<not> is_digit 34"
  by (simp add: is_digit_def)

lemma match_at_token_re:
  "match_at token_re i s =
     (let ds = takeWhile is_digit s; r = dropWhile is_digit s; b = drop 2 r in
      if ds \<noteq> [] \<and> take 2 r = [58, 34] \<and> 34 \<in> set b
      then Some \<lparr>m_index = i, m_groups = [(1, takeWhile (\<lambda>x. x \<noteq> 34) b)],
                 m_end = i + length ds + 2 + length (takeWhile (\<lambda>x. x \<noteq> 34) b) + 1,
                 m_rest = tl (dropWhile (\<lambda>x. x \<noteq> 34) b)\<rparr>
      else None)"
proof -
  define K where "K = (\<lambda>i1 s1.
      rmatch (seqs [Lit 0x3A, Lit 0x22, Grp 1 (Rep False 0 (\<lambda>c. True)), Lit 0x22]) [] i1 s1
       (\<lambda>cp i' s'. Some \<lparr>m_index = i, m_groups = cp, m_end = i', m_rest = s'\<rparr>))"
  have K: "K i1 s1 =
     (if take 2 s1 = [58, 34] \<and> 34 \<in> set (drop 2 s1)
      then Some \<lparr>m_index = i, m_groups = [(1, takeWhile (\<lambda>x. x \<noteq> 34) (drop 2 s1))],
                 m_end = i1 + 2 + length (takeWhile (\<lambda>x. x \<noteq> 34) (drop 2 s1)) + 1,
                 m_rest = tl (dropWhile (\<lambda>x. x \<noteq> 34) (drop 2 s1))\<rparr>
      else None)" for i1 s1
  proof (cases s1)
    case Nil
    then show ?thesis by (simp add: K_def seqs_def Lit_def)
  next
    case (Cons a s2)
    show ?thesis
    proof (cases s2)
      case Nil
      with Cons show ?thesis by (simp add: K_def seqs_def Lit_def)
    next
      case (Cons b s3)
      show ?thesis
        unfolding K_def seqs_def Lit_def \<open>s1 = a # s2\<close> \<open>s2 = b # s3\<close>
        by (simp add: rep_lazy_any_first takeWhile_eq_take [symmetric])
    qed
  qed
  have fail: "K j (c # cs) = None" if "is_digit c" for j c cs
    using that by (auto simp: K)
  have "match_at token_re i s = rep_greedy is_digit 1 i s K"
    by (simp add: match_at_def token_re_def seqs_def K_def)
  also have "\<dots> = (if 1 \<le> length (takeWhile is_digit s)
            then K (i + length (takeWhile is_digit s)) (dropWhile is_digit s) else None)"
    by (rule rep_greedy_maximal) (rule fail)
  finally show ?thesis
    by (cases "takeWhile is_digit s") (simp_all add: K Let_def)
qed


lemma takeWhile_first:
  "q \<notin> set c \<Longrightarrow> takeWhile (\<lambda>x. x \<noteq> q) (c @ q # r) = c"
  by (induction c) auto

lemma dropWhile_first:
  "q \<notin> set c \<Longrightarrow> dropWhile (\<lambda>x. x \<noteq> q) (c @ q # r) = q # r"
  by (induction c) auto

lemma match_at_token_exact:
  assumes "d \<noteq> []" "\<forall>x\<in>set d. is_digit x" "0x22 \<notin> set c"
  shows "\<exists>m. match_at token_re i (d @ 0x3A # 0x22 # c @ 0x22 # rest) = Some m \<and>
           group 1 m = c \<and> m_rest m = rest"
proof -
  have tw: "takeWhile is_digit (d @ 0x3A # 0x22 # c @ 0x22 # rest) = d"
    using assms(2) by (simp add: takeWhile_append2)
  have dw: "dropWhile is_digit (d @ 0x3A # 0x22 # c @ 0x22 # rest) = 0x3A # 0x22 # c @ 0x22 # rest"
    using assms(2) by (simp add: dropWhile_append2)
  have twc: "takeWhile (\<lambda>x. x \<noteq> 0x22) (c @ 0x22 # rest) = c"
    using assms(3) by (rule takeWhile_first)
  have dwc: "dropWhile (\<lambda>x. x \<noteq> 0x22) (c @ 0x22 # rest) = 0x22 # rest"
    using assms(3) by (rule dropWhile_first)
  show ?thesis
    using assms(1) by (simp add: match_at_token_re tw dw twc dwc group_def)
qed

lemma has_token_start_digits:
  "ds \<noteq> [] \<Longrightarrow> \<forall>x\<in>set ds. is_digit x \<Longrightarrow> has_token_start (ds @ 0x3A # 0x22 # r)"
proof (induction ds)
  case Nil
  then show ?case by simp
next
  case (Cons a ds)
  show ?case
  proof (cases ds)
    case Nil
    with Cons.prems show ?thesis by simp
  next
    case (Cons a' ds')
    with Cons.IH Cons.prems have ih: "has_token_start ((a' # ds') @ 0x3A # 0x22 # r)" by simp
    show ?thesis
    proof (cases ds')
      case Nil
      with ih Cons show ?thesis by simp
    next
      case (Cons a'' ds'')
      with ih \<open>ds = a' # ds'\<close> show ?thesis by simp
    qed
  qed
qed

lemma has_token_start_Cons: "\<not> has_token_start (x # p) \<Longrightarrow> \<not> has_token_start p"
proof (cases p)
  case Nil
  then show ?thesis by simp
next
  case (Cons b p')
  assume a: "\<not> has_token_start (x # p)"
  show ?thesis
  proof (cases p')
    case Nil
    with Cons show ?thesis by simp
  next
    case (Cons c r)
    with a \<open>p = b # p'\<close> show ?thesis by simp
  qed
qed

lemma has_token_start_append:
  "has_token_start q \<Longrightarrow> has_token_start (p @ q)"
proof (induction p)
  case Nil
  then show ?case by simp
next
  case (Cons x p)
  then have h: "has_token_start (p @ q)" by simp
  show ?case
  proof (cases "p @ q")
    case Nil
    with h show ?thesis by simp
  next
    case (Cons b r)
    show ?thesis
    proof (cases r)
      case Nil
      with h Cons show ?thesis by simp
    next
      case (Cons c r')
      with h \<open>p @ q = b # r\<close> show ?thesis by simp
    qed
  qed
qed

lemma match_at_token_digits:
  assumes "match_at token_re i s = Some m"
  shows "takeWhile is_digit s \<noteq> [] \<and> take 2 (dropWhile is_digit s) = [0x3A, 0x22] \<and>
         group 1 m = takeWhile (\<lambda>x. x \<noteq> 0x22) (drop 2 (dropWhile is_digit s)) \<and>
         m_rest m = tl (dropWhile (\<lambda>x. x \<noteq> 0x22) (drop 2 (dropWhile is_digit s)))"
proof -
  let ?ds = "takeWhile is_digit s"
  let ?b = "drop 2 (dropWhile is_digit s)"
  have c: "?ds \<noteq> [] \<and> take 2 (dropWhile is_digit s) = [0x3A, 0x22] \<and> 0x22 \<in> set ?b"
  proof (rule ccontr)
    assume "\<not> ?thesis"
    then have "match_at token_re i s = None"
      by (simp add: match_at_token_re Let_def)
    with assms show False by simp
  qed
  then have "match_at token_re i s =
     Some \<lparr>m_index = i, m_groups = [(1, takeWhile (\<lambda>x. x \<noteq> 0x22) ?b)],
                 m_end = i + length ?ds + 2 + length (takeWhile (\<lambda>x. x \<noteq> 0x22) ?b) + 1,
                 m_rest = tl (dropWhile (\<lambda>x. x \<noteq> 0x22) ?b)\<rparr>"
    by (simp add: match_at_token_re Let_def)
  with assms
  have m: "\<lparr>m_index = i, m_groups = [(1, takeWhile (\<lambda>x. x \<noteq> 0x22) ?b)],
                 m_end = i + length ?ds + 2 + length (takeWhile (\<lambda>x. x \<noteq> 0x22) ?b) + 1,
                 m_rest = tl (dropWhile (\<lambda>x. x \<noteq> 0x22) ?b)\<rparr> = m"
    by simp
  have g: "group 1 m = takeWhile (\<lambda>x. x \<noteq> 0x22) ?b"
    unfolding m [symmetric] by (simp add: group_def)
  have e: "m_rest m = tl (dropWhile (\<lambda>x. x \<noteq> 0x22) ?b)"
    unfolding m [symmetric] by simp
  from c g e show ?thesis by blast
qed

lemma search_token_index:
  "(search token_re i s = None) = (search token_re j s = None)"
proof (induction s arbitrary: i j)
  case Nil
  then show ?case by (simp add: match_at_token_re)
next
  case (Cons c s)
  have "(match_at token_re i (c # s) = None) = (match_at token_re j (c # s) = None)"
    by (simp add: match_at_token_re Let_def)
  with Cons [of "Suc i" "Suc j"] show ?case
    by (cases "match_at token_re i (c # s)"; cases "match_at token_re j (c # s)") auto
qed

lemma dropWhile_all_then:
  "\<forall>x\<in>set xs. P x \<Longrightarrow> \<not> P y \<Longrightarrow> dropWhile P (xs @ y # r) = y # r"
  by (induction xs) simp_all

lemma dropWhile_token:
  assumes "\<not> has_token_start p" "d \<noteq> []" "\<forall>x\<in>set d. is_digit x"
    and "take 2 (dropWhile is_digit (p @ d @ 0x3A # 0x22 # r)) = [0x3A, 0x22]"
    and "takeWhile is_digit (p @ d @ 0x3A # 0x22 # r) \<noteq> []"
  shows "drop 2 (dropWhile is_digit (p @ d @ 0x3A # 0x22 # r)) = r"
proof (cases "\<forall>x\<in>set p. is_digit x")
  case True
  then have all: "\<forall>x\<in>set (p @ d). is_digit x" using assms(3) by auto
  have "dropWhile is_digit ((p @ d) @ 0x3A # 0x22 # r) = 0x3A # 0x22 # r"
    using all is_digit_colon by (rule dropWhile_all_then)
  then show ?thesis by simp
next
  case False
  then obtain y where y: "y \<in> set p" "\<not> is_digit y" by blast
  have dw: "dropWhile is_digit (p @ d @ 0x3A # 0x22 # r) =
      dropWhile is_digit p @ d @ 0x3A # 0x22 # r"
    using y by (rule dropWhile_append1)
  have tw: "takeWhile is_digit (p @ d @ 0x3A # 0x22 # r) = takeWhile is_digit p"
    using y by (rule takeWhile_append1)
  from assms(2) obtain x d' where d: "d = x # d'" by (cases d) auto
  with assms(3) have x: "is_digit x" by simp
  from False have ne: "dropWhile is_digit p \<noteq> []" by (simp add: dropWhile_eq_Nil_conv)
  then obtain q qs where q: "dropWhile is_digit p = q # qs" by (cases "dropWhile is_digit p") auto
  have t: "take 2 ((q # qs) @ d @ 0x3A # 0x22 # r) = [0x3A, 0x22]"
    using assms(4) by (simp only: dw q)
  show ?thesis
  proof (cases qs)
    case Nil
    from t have "x = 0x22" by (simp add: Nil d)
    with x show ?thesis by simp
  next
    case (Cons q' qs')
    from t have qq: "q = 0x3A" "q' = 0x22" by (simp_all add: Cons)
    have "takeWhile is_digit p @ dropWhile is_digit p = p" by (rule takeWhile_dropWhile_id)
    then have eqp: "takeWhile is_digit p @ 0x3A # 0x22 # qs' = p"
      by (simp only: q Cons qq)
    have ne': "takeWhile is_digit p \<noteq> []" using assms(5) unfolding tw by assumption
    have dig: "\<forall>x\<in>set (takeWhile is_digit p). is_digit x" by (auto dest: set_takeWhileD)
    have "has_token_start (takeWhile is_digit p @ 0x3A # 0x22 # qs')"
      by (rule has_token_start_digits [OF ne' dig])
    then have "has_token_start p" by (simp only: eqp)
    with assms(1) show ?thesis by simp
  qed
qed

lemma search_token_first:
  assumes "\<not> has_token_start p" "d \<noteq> []" "\<forall>x\<in>set d. is_digit x" "0x22 \<notin> set c"
  shows "\<exists>m. search token_re i (p @ d @ 0x3A # 0x22 # c @ 0x22 # rest) = Some m \<and>
           group 1 m = c \<and> m_rest m = rest"
  using assms(1)
proof (induction p arbitrary: i)
  case Nil
  from assms(2) obtain x d' where d: "d = x # d'" by (cases d) auto
  from match_at_token_exact [OF assms(2,3,4), of i rest] show ?case by (auto simp: d)
next
  case (Cons x p)
  let ?s = "(x # p) @ d @ 0x3A # 0x22 # c @ 0x22 # rest"
  show ?case
  proof (cases "match_at token_re i ?s")
    case None
    with Cons.IH [OF has_token_start_Cons [OF Cons.prems]] show ?thesis by simp
  next
    case (Some m)
    from match_at_token_digits [OF Some] have
      tw: "takeWhile is_digit ?s \<noteq> []" and t2: "take 2 (dropWhile is_digit ?s) = [0x3A, 0x22]"
      and g: "group 1 m = takeWhile (\<lambda>x. x \<noteq> 0x22) (drop 2 (dropWhile is_digit ?s))"
      and r: "m_rest m = tl (dropWhile (\<lambda>x. x \<noteq> 0x22) (drop 2 (dropWhile is_digit ?s)))"
      by blast+
    have b: "drop 2 (dropWhile is_digit ?s) = c @ 0x22 # rest"
      by (rule dropWhile_token [OF Cons.prems assms(2,3) t2 tw])
    have "takeWhile (\<lambda>x. x \<noteq> 0x22) (c @ 0x22 # rest) = c"
      "tl (dropWhile (\<lambda>x. x \<noteq> 0x22) (c @ 0x22 # rest)) = rest"
      using assms(4) by (simp_all add: takeWhile_first dropWhile_first)
    then have "group 1 m = c" "m_rest m = rest"
      unfolding g r b by simp_all
    with Some show ?thesis by simp
  qed
qed

lemma exec_tokens_frames:
  assumes "\<forall>(p, d, c)\<in>set ts. \<not> has_token_start p \<and> d \<noteq> [] \<and> (\<forall>x\<in>set d. is_digit x) \<and> 0x22 \<notin> set c"
    and "search token_re 0 post = None"
  shows "exec_tokens i (concat (map numbered_token ts) @ post) = map (\<lambda>(p, d, c). c) ts"
  using assms(1)
proof (induction ts arbitrary: i)
  case Nil
  have "search token_re i post = None"
    using assms(2) search_token_index [of i post 0] by simp
  then show ?case by (simp add: exec_tokens.simps [of i post])
next
  case (Cons x ts)
  obtain p d c where x: "x = (p, d, c)" by (cases x)
  from Cons.prems have wf: "\<not> has_token_start p" "d \<noteq> []" "\<forall>x\<in>set d. is_digit x" "0x22 \<notin> set c"
    by (auto simp: x)
  let ?rest = "concat (map numbered_token ts) @ post"
  have s: "concat (map numbered_token (x # ts)) @ post = p @ d @ 0x3A # 0x22 # c @ 0x22 # ?rest"
    by (simp add: x numbered_token_def)
  from search_token_first [OF wf, of i ?rest] obtain m where
    m: "search token_re i (p @ d @ 0x3A # 0x22 # c @ 0x22 # ?rest) = Some m"
      "group 1 m = c" "m_rest m = ?rest" by blast
  have "exec_tokens (m_end m) ?rest = map (\<lambda>(p, d, c). c) ts"
    using Cons.IH [of "m_end m"] Cons.prems by simp
  then show ?case
    unfolding s by (subst exec_tokens.simps) (simp add: m x del: One_nat_def)
qed

text \<open>
  Claim C2, as stated, fails: the frame \<open>7:"He said \"hi\""\<close> is one token, and
  \<open>JSON.parse\<close> reads its quoted string as \<open>He said "hi"\<close>. The extractor returns
  \<open>He said\<close>, a space and a backslash: the text up to the first quote behind the opening
  one. The pattern has a lazy group between two quotes and knows no escape.
\<close>

theorem extract_escaped_quote_counterexample:
  "JSON_parse (drop 2 escaped_frame) = Some (JStr (str ''He said \"hi\"'')) \<and>
   extractTextFromTokenStream escaped_frame = str ''He said '' @ [0x5C]"
  by code_simp

text \<open>
  Claim C2, amended. Take a frame that is cut into one or more tokens \<open>digits:"content"\<close>
  whose contents hold no quote: each token \<open>(p, d, c)\<close> comes with the text \<open>p\<close> before it,
  in which no token opens, and has the index digits \<open>d\<close> and the content \<open>c\<close>; behind the
  last token comes a text \<open>post\<close> in which the pattern does not match. If the frame is not
  control-prefixed, the extractor returns the contents as they stand in the frame, no
  escape decoded, concatenated in their order of appearance. The index digits and the
  text around the tokens do not occur in the result. The pattern takes as the content of
  a token what stands between its opening quote and the next quote.
\<close>

theorem extract_numbered_tokens:
  assumes "ts \<noteq> []"
    and "\<forall>(p, d, c)\<in>set ts. \<not> has_token_start p \<and> d \<noteq> [] \<and> (\<forall>x\<in>set d. is_digit x) \<and> 0x22 \<notin> set c"
    and "search token_re 0 post = None"
    and "\<not> regex_test control_re (trim (concat (map numbered_token ts) @ post))"
  shows "extractTextFromTokenStream (concat (map numbered_token ts) @ post) =
           concat (map (\<lambda>(p, d, c). c) ts)"
  using assms(1,4)
  by (simp add: extractTextFromTokenStream_def exec_tokens_frames [OF assms(2,3)])

theorem extract_numbered_tokens_witness:
  "extractTextFromTokenStream (str ''say \"x\" 0:\"Mum\", 17:\"bai\" 5:\"!'') = str ''Mumbai''"
proof -
  let ?ts = "[(str ''say \"x\" '', str ''0'', str ''Mum''), (str '', '', str ''17'', str ''bai'')]"
  let ?post = "str '' 5:\"!''"
  have h1: "?ts \<noteq> []" by simp
  have h2: "\<forall>(p, d, c)\<in>set ?ts. \<not> has_token_start p \<and> d \<noteq> [] \<and> (\<forall>x\<in>set d. is_digit x) \<and> 0x22 \<notin> set c"
    by code_simp
  have h3: "search token_re 0 ?post = None" by code_simp
  have h4: "\<not> regex_test control_re (trim (concat (map numbered_token ?ts) @ ?post))"
    by code_simp
  have "extractTextFromTokenStream (concat (map numbered_token ?ts) @ ?post) =
          concat (map (\<lambda>(p, d, c). c) ?ts)"
    by (rule extract_numbered_tokens [OF h1 h2 h3 h4])
  then show ?thesis by (simp add: numbered_token_def str_def)
qed

lemma search_bol:
  "0 < i \<Longrightarrow> search (seqs (Bol # rs)) i s = None"
  by (induction s arbitrary: i) (simp_all add: match_at_def seqs_def)

lemma regex_test_bol:
  "regex_test (seqs (Bol # rs)) s = (match_at (seqs (Bol # rs)) 0 s \<noteq> None)"
  by (cases s) (simp_all add: regex_test_def search_bol split: option.splits)

lemma control_re_head:
  "x \<notin> set (str ''faedFAED'') \<Longrightarrow> \<not> regex_test control_re (x # xs)"
  unfolding control_re_def regex_test_bol
  by (simp add: match_at_def seqs_def Lit_def)

lemma index_re_head:
  "\<not> is_digit x \<Longrightarrow> \<not> regex_test index_re (x # xs)"
  unfolding index_re_def regex_test_bol
  by (simp add: match_at_def seqs_def Lit_def)

lemma trimEnd_Cons:
  assumes "\<not> is_space x"
  shows "trimEnd (x # xs) = x # rev (dropWhile is_space (rev xs))"
proof -
  have "dropWhile is_space (rev xs @ [x]) = dropWhile is_space (rev xs) @ [x]"
    using assms by (rule dropWhile_append3)
  then show ?thesis by (simp add: trimEnd_def)
qed

lemma trim_head:
  assumes "trimStart raw = x # xs"
  shows "\<exists>ys. trim raw = x # ys"
proof -
  from assms have "\<not> is_space x"
    by (simp add: trimStart_def dropWhile_eq_Cons_conv)
  from trimEnd_Cons [OF this, of xs] show ?thesis by (simp add: trim_def assms)
qed

lemma digit_not_control: "is_digit x \<Longrightarrow> x \<notin> set (str ''faedFAED'')"
  by (auto simp: is_digit_def str_def)

lemma search_index_re:
  assumes "d \<noteq> []" "\<forall>x\<in>set d. is_digit x"
  shows "search index_re 0 (d @ 0x3A # rest) =
           Some \<lparr>m_index = 0, m_groups = [], m_end = Suc (length d), m_rest = rest\<rparr>"
proof -
  let ?K = "\<lambda>i1 s1. rmatch (seqs [Lit 0x3A]) [] i1 s1
       (\<lambda>cp i' s'. Some \<lparr>m_index = 0, m_groups = cp, m_end = i', m_rest = s'\<rparr>)"
  have fail: "?K j (c # cs) = None" if "is_digit c" for j c cs
    using that by (auto simp: seqs_def Lit_def)
  have tw: "takeWhile is_digit (d @ 0x3A # rest) = d"
    using assms(2) by (simp add: takeWhile_append2)
  have dw: "dropWhile is_digit (d @ 0x3A # rest) = 0x3A # rest"
    using assms(2) by (simp add: dropWhile_append2)
  have "match_at index_re 0 (d @ 0x3A # rest) = rep_greedy is_digit 1 0 (d @ 0x3A # rest) ?K"
    by (simp add: match_at_def index_re_def seqs_def)
  also have "\<dots> = (if 1 \<le> length (takeWhile is_digit (d @ 0x3A # rest))
            then ?K (0 + length (takeWhile is_digit (d @ 0x3A # rest)))
                   (dropWhile is_digit (d @ 0x3A # rest)) else None)"
    by (rule rep_greedy_maximal) (rule fail)
  also have "\<dots> = Some \<lparr>m_index = 0, m_groups = [], m_end = Suc (length d), m_rest = rest\<rparr>"
    unfolding tw dw using assms(1) by (cases d) (simp_all add: seqs_def Lit_def)
  finally have m: "match_at index_re 0 (d @ 0x3A # rest) =
      Some \<lparr>m_index = 0, m_groups = [], m_end = Suc (length d), m_rest = rest\<rparr>" .
  from assms(1) obtain x d' where "d = x # d'" by (cases d) auto
  then show ?thesis using m by simp
qed

lemma indexOf_eq:
  "indexOf s c = (if c \<in> set s then int (length (takeWhile (\<lambda>x. x \<noteq> c) s)) else - 1)"
  by (induction s) (simp_all add: Let_def)

lemma lastIndexOf_eq:
  "lastIndexOf s c =
     (if c \<in> set s then int (length s) - 1 - int (length (takeWhile (\<lambda>x. x \<noteq> c) (rev s)))
      else - 1)"
  by (simp add: lastIndexOf_def indexOf_eq Let_def)

lemma brace_pair:
  assumes "indexOf s 0x7B \<noteq> - 1" "lastIndexOf s 0x7D \<noteq> - 1"
    and "indexOf s 0x7B < lastIndexOf s 0x7D"
  shows "has_brace_pair s"
proof -
  let ?i = "length (takeWhile (\<lambda>x. x \<noteq> 0x7B) s)"
  let ?k = "length (takeWhile (\<lambda>x. x \<noteq> 0x7D) (rev s))"
  from assms(1) have o: "0x7B \<in> set s" by (simp add: indexOf_eq split: if_splits)
  from assms(2) have c: "0x7D \<in> set s" by (simp add: lastIndexOf_eq split: if_splits)
  have k: "?k < length s"
  proof (rule ccontr)
    assume "\<not> ?k < length s"
    then have "?k = length (rev s)"
      using length_takeWhile_le [of "\<lambda>x. x \<noteq> 0x7D" "rev s"] by simp
    then have "takeWhile (\<lambda>x. x \<noteq> 0x7D) (rev s) = rev s"
      by (metis takeWhile_eq_take take_all order_refl)
    then have "\<forall>x\<in>set s. x \<noteq> 0x7D" by (simp add: takeWhile_eq_all_conv)
    with c show False by blast
  qed
  from assms(3) o c have lt: "int ?i < int (length s) - 1 - int ?k"
    by (simp add: indexOf_eq lastIndexOf_eq)
  define j where "j = length s - Suc ?k"
  from k lt have ij: "?i < j" "j < length s" by (simp_all add: j_def)
  have "\<not> (rev s ! ?k \<noteq> 0x7D)"
    using k by (intro nth_length_takeWhile) simp
  then have "rev s ! ?k = 0x7D" by simp
  with k have sj: "s ! j = 0x7D" by (simp add: rev_nth j_def)
  have "drop ?i s ! (j - ?i) = s ! j" using ij by simp
  moreover have "j - ?i < length (drop ?i s)" using ij by simp
  ultimately have "s ! j \<in> set (drop ?i s)" by (metis nth_mem)
  with sj have "0x7D \<in> set (drop ?i s)" by simp
  then show ?thesis
    unfolding has_brace_pair_def by (subst dropWhile_eq_drop)
qed

lemma exec_tokens_none:
  "search token_re 0 raw = None \<Longrightarrow> exec_tokens 0 raw = []"
  by (subst exec_tokens.simps) simp

lemma startsWith_Cons:
  "startsWith s [c] \<Longrightarrow> \<exists>xs. s = c # xs"
  by (cases s) (simp_all add: startsWith_def)

text \<open>
  Claim C9. An input that, after its leading whitespace, starts with digits and a colon,
  in which the token pattern matches nowhere, and that has no closing brace after an
  opening brace behind that prefix: the extractor returns the empty string, so plain text
  such as \<open>3:2 odds\<close> is dropped, not passed through.
\<close>

theorem extract_index_prefix_empty:
  assumes "trimStart raw = d @ 0x3A # rest" "d \<noteq> []" "\<forall>x\<in>set d. is_digit x"
    and "search token_re 0 raw = None"
    and "\<not> has_brace_pair rest"
  shows "extractTextFromTokenStream raw = []"
proof -
  from assms(2) obtain x d' where d: "d = x # d'" by (cases d) auto
  with assms(3) have x: "is_digit x" by simp
  from assms(1) have "trimStart raw = x # (d' @ 0x3A # rest)" by (simp add: d)
  from trim_head [OF this] obtain ys where "trim raw = x # ys" by blast
  with control_re_head [OF digit_not_control [OF x], of ys]
  have ctl: "\<not> regex_test control_re (trim raw)" by simp
  have tok: "exec_tokens 0 raw = []" by (rule exec_tokens_none [OF assms(4)])
  have idx: "search index_re 0 (trimStart raw) =
      Some \<lparr>m_index = 0, m_groups = [], m_end = Suc (length d), m_rest = rest\<rparr>"
    unfolding assms(1) by (rule search_index_re [OF assms(2,3)])
  have t: "regex_test index_re (trimStart raw)" by (simp add: regex_test_def idx)
  have r: "replace_first index_re (trimStart raw) [] = rest"
    by (simp add: replace_first_def idx)
  have b: "\<not> (indexOf rest 0x7B \<noteq> - 1 \<and> lastIndexOf rest 0x7D \<noteq> - 1 \<and>
              indexOf rest 0x7B < lastIndexOf rest 0x7D)"
    using brace_pair [of rest] assms(5) by blast
  have "extractTextFromTokenStream raw =
      (if indexOf rest 0x7B \<noteq> - 1 \<and> lastIndexOf rest 0x7D \<noteq> - 1 \<and>
          indexOf rest 0x7B < lastIndexOf rest 0x7D
       then trim (slice_from rest (lastIndexOf rest 0x7D + 1)) else [])"
    unfolding extractTextFromTokenStream_def Let_def by (simp only: ctl tok t r if_False if_True simp_thms)
  also have "\<dots> = []" using b by (rule if_not_P)
  finally show ?thesis .
qed

theorem extract_index_prefix_empty_witness:
  "extractTextFromTokenStream (str '' 3:2 odds {'') = []"
proof -
  have h1: "trimStart (str '' 3:2 odds {'') = str ''3'' @ 0x3A # str ''2 odds {''" by code_simp
  have h2: "str ''3'' \<noteq> []" by code_simp
  have h3: "\<forall>x\<in>set (str ''3''). is_digit x" by code_simp
  have h4: "search token_re 0 (str '' 3:2 odds {'') = None" by code_simp
  have h5: "\<not> has_brace_pair (str ''2 odds {'')" by code_simp
  show ?thesis by (rule extract_index_prefix_empty [OF h1 h2 h3 h4 h5])
qed

text \<open>
  Claim C8, as stated, fails: this bare JSON object has a \<open>toolName\<close> field, and the
  extractor returns the text \<open>,\<close> for it, because the token pattern, which is tried first,
  matches \<open>12:","\<close> inside the object.
\<close>

theorem extract_metadata_object_counterexample:
  "JSON_parse (str ''{\"note\":\"at 12:\",\"toolName\":\"w\"}'') =
     Some (JObj [(str ''note'', JStr (str ''at 12:'')), (str ''toolName'', JStr (str ''w''))]) \<and>
   extractTextFromTokenStream (str ''{\"note\":\"at 12:\",\"toolName\":\"w\"}'') = str '',''"
  by code_simp

text \<open>
  Claim C8, amended. An input that, after its leading whitespace, starts with an opening
  brace and ends with a closing brace, in which the token pattern matches nowhere, and
  that \<open>JSON.parse\<close> reads as a value whose \<open>toolCallId\<close>, \<open>toolName\<close>, \<open>messageId\<close> or
  \<open>finishReason\<close> field is truthy: the extractor returns the empty string.
\<close>

theorem extract_metadata_object_empty:
  assumes "startsWith (trimStart raw) (str ''{'')" "endsWith (trimStart raw) (str ''}'')"
    and "search token_re 0 raw = None"
    and "JSON_parse (trimStart raw) = Some obj"
    and "is_metadata obj"
  shows "extractTextFromTokenStream raw = []"
proof -
  from assms(1) obtain xs where ts: "trimStart raw = 0x7B # xs"
    using startsWith_Cons [of "trimStart raw" "0x7B"] by (auto simp: str_def)
  from trim_head [OF ts] obtain ys where "trim raw = 0x7B # ys" by blast
  moreover have "0x7B \<notin> set (str ''faedFAED'')" by (simp add: str_def)
  ultimately have ctl: "\<not> regex_test control_re (trim raw)"
    using control_re_head [of "0x7B" ys] by simp
  have tok: "exec_tokens 0 raw = []" by (rule exec_tokens_none [OF assms(3)])
  have "\<not> is_digit 0x7B" by (simp add: is_digit_def)
  then have idx: "\<not> regex_test index_re (trimStart raw)"
    unfolding ts by (rule index_re_head)
  show ?thesis
    unfolding extractTextFromTokenStream_def Let_def
    by (simp add: ctl tok idx assms(1,2,4,5))
qed

theorem extract_metadata_object_empty_witness:
  "extractTextFromTokenStream (str '' {\"toolCallId\":\"call_1\",\"args\":{\"city\":\"Pune\"}}'') = []"
proof -
  let ?raw = "str '' {\"toolCallId\":\"call_1\",\"args\":{\"city\":\"Pune\"}}''"
  let ?obj = "JObj [(str ''toolCallId'', JStr (str ''call_1'')),
                    (str ''args'', JObj [(str ''city'', JStr (str ''Pune''))])]"
  have h1: "startsWith (trimStart ?raw) (str ''{'')" by code_simp
  have h2: "endsWith (trimStart ?raw) (str ''}'')" by code_simp
  have h3: "search token_re 0 ?raw = None" by code_simp
  have h4: "JSON_parse (trimStart ?raw) = Some ?obj" by code_simp
  have h5: "is_metadata ?obj" by code_simp
  show ?thesis by (rule extract_metadata_object_empty [OF h1 h2 h3 h4 h5])
qed

section \<open>TextDecoder\<close>

text \<open>
  \<open>new TextDecoder()\<close> is the UTF-8 decoder of the platform (WHATWG Encoding), used with
  \<open>{stream: true}\<close>: the state of the decoder is kept between calls, so the bytes of an
  incomplete sequence at the end of a chunk are carried over, and there is no final flush
  (the program never calls \<open>decode\<close> without the option). An ill-formed sequence decodes
  to U+FFFD. A byte order mark at the start of the stream is dropped.
\<close>

type_synonym byte = "8 word"

record utf8_decoder =
  code_point :: "32 word"
  bytes_seen :: nat
  bytes_needed :: nat
  lower_boundary :: byte
  upper_boundary :: byte

record text_decoder =
  decoder :: utf8_decoder
  bom_seen :: bool

definition new_TextDecoder :: text_decoder where
  "new_TextDecoder =
     \<lparr>decoder = \<lparr>code_point = 0, bytes_seen = 0, bytes_needed = 0,
                  lower_boundary = 0x80, upper_boundary = 0xBF\<rparr>,
      bom_seen = False\<rparr>"

definition utf8_reset :: "utf8_decoder \<Rightarrow> utf8_decoder" where
  "utf8_reset d =
     d\<lparr>code_point := 0, bytes_seen := 0, bytes_needed := 0,
       lower_boundary := 0x80, upper_boundary := 0xBF\<rparr>"

definition utf8_lead :: "utf8_decoder \<Rightarrow> byte \<Rightarrow> utf8_decoder \<times> 32 word list" where
  \<comment> \<open>a byte read when no sequence is open\<close>
  "utf8_lead d b =
     (if b \<le> 0x7F then (d, [ucast b])
      else if 0xC2 \<le> b \<and> b \<le> 0xDF then
        (d\<lparr>bytes_needed := 1, code_point := ucast (b AND 0x1F)\<rparr>, [])
      else if 0xE0 \<le> b \<and> b \<le> 0xEF then
        (d\<lparr>lower_boundary := (if b = 0xE0 then 0xA0 else lower_boundary d),
           upper_boundary := (if b = 0xED then 0x9F else upper_boundary d),
           bytes_needed := 2, code_point := ucast (b AND 0x0F)\<rparr>, [])
      else if 0xF0 \<le> b \<and> b \<le> 0xF4 then
        (d\<lparr>lower_boundary := (if b = 0xF0 then 0x90 else lower_boundary d),
           upper_boundary := (if b = 0xF4 then 0x8F else upper_boundary d),
           bytes_needed := 3, code_point := ucast (b AND 0x07)\<rparr>, [])
      else (d, [0xFFFD]))"

definition utf8_handler :: "utf8_decoder \<Rightarrow> byte \<Rightarrow> utf8_decoder \<times> 32 word list" where
  \<comment> \<open>one byte: the new state and the scalar values it completes (U+FFFD for an error;
      a byte that breaks an open sequence is read again as a first byte)\<close>
  "utf8_handler d b =
     (if bytes_needed d = 0 then utf8_lead d b
      else if \<not> (lower_boundary d \<le> b \<and> b \<le> upper_boundary d) then
        (case utf8_lead (utf8_reset d) b of (d', out) \<Rightarrow> (d', 0xFFFD # out))
      else
        (let d1 = d\<lparr>lower_boundary := 0x80, upper_boundary := 0xBF,
                      code_point := push_bit 6 (code_point d) OR ucast (b AND 0x3F),
                      bytes_seen := bytes_seen d + 1\<rparr>
         in if bytes_seen d1 \<noteq> bytes_needed d1 then (d1, [])
            else (utf8_reset d1, [code_point d1])))"

fun decode_bytes :: "utf8_decoder \<Rightarrow> byte list \<Rightarrow> utf8_decoder \<times> 32 word list" where
  "decode_bytes d [] = (d, [])"
| "decode_bytes d (b # bs) =
     (case utf8_handler d b of (d1, o1) \<Rightarrow>
        (case decode_bytes d1 bs of (d2, o2) \<Rightarrow> (d2, o1 @ o2)))"

definition utf16 :: "32 word \<Rightarrow> jstring" where
  \<comment> \<open>the code units of a scalar value in a JavaScript string\<close>
  "utf16 c =
     (if c < 0x10000 then [ucast c]
      else [0xD800 + ucast (drop_bit 10 (c - 0x10000)),
            0xDC00 + ucast ((c - 0x10000) AND 0x3FF)])"

fun serialize :: "bool \<Rightarrow> 32 word list \<Rightarrow> bool \<times> jstring" where
  \<comment> \<open>the first scalar value of the stream sets \<open>BOM seen\<close>, and is dropped if it is U+FEFF\<close>
  "serialize seen [] = (seen, [])"
| "serialize seen (c # cs) =
     (if \<not> seen \<and> c = 0xFEFF then serialize True cs
      else (case serialize True cs of (seen', out) \<Rightarrow> (seen', utf16 c @ out)))"

definition decode :: "text_decoder \<Rightarrow> byte list \<Rightarrow> text_decoder \<times> jstring" where
  \<comment> \<open>\<open>decoder.decode(value, {stream: true})\<close>\<close>
  "decode td bs =
     (case decode_bytes (decoder td) bs of (d1, scalars) \<Rightarrow>
        (case serialize (bom_seen td) scalars of (seen, text) \<Rightarrow>
           (\<lparr>decoder = d1, bom_seen = seen\<rparr>, text)))"

section \<open>The transport reader (src/lib/api.ts)\<close>

text \<open>
  The calls the reader makes, in order: to the extractor and to its three callbacks. The
  trace of a run is the list of these calls.
\<close>

datatype call =
    Extract jstring
  | OnChunk jstring
  | OnError jstring
  | OnComplete

datatype thrown = ErrorObject (err_name: jstring) (err_message: jstring) | NotAnError

datatype read_result = Value "byte list" | Rejects thrown

datatype fetch_outcome =
    FetchRejects thrown
  | NotOk jstring jstring
  | NoBody
  | Body "read_result list"

datatype flow = Continue | Return

fun normalize_newlines :: "jstring \<Rightarrow> jstring" where
  \<comment> \<open>\<open>cleaned.replace(/\\n/g, '\n')\<close>: a backslash followed by \<open>n\<close> becomes a line feed\<close>
  "normalize_newlines (a # b # r) =
     (if a = 0x5C \<and> b = 0x6E then 0x0A # normalize_newlines r
      else a # normalize_newlines (b # r))"
| "normalize_newlines r = r"

definition emit :: "jstring \<Rightarrow> call list" where
  \<comment> \<open>\<open>let cleaned = extractTextFromTokenStream(payload); cleaned = cleaned.replace(...);
      if (cleaned) onChunk(cleaned)\<close>\<close>
  "emit payload =
     (let cleaned = normalize_newlines (extractTextFromTokenStream payload)
      in Extract payload # (if cleaned \<noteq> [] then [OnChunk cleaned] else []))"

fun for_lines :: "jstring list \<Rightarrow> call list \<times> flow" where
  \<comment> \<open>\<open>for (const line of lines)\<close>; \<open>Return\<close> when the body returned from the function\<close>
  "for_lines [] = ([], Continue)"
| "for_lines (line # ls) =
     (if trim line = [] then for_lines ls
      else if startsWith line (str ''data: '') then
        (let data = slice_from line 6
         in if data = str ''[DONE]'' then ([OnComplete], Return)
            else (case for_lines ls of (cs, f) \<Rightarrow> (emit data @ cs, f)))
      else (case for_lines ls of (cs, f) \<Rightarrow> (emit line @ cs, f)))"

definition on_catch :: "thrown \<Rightarrow> call list" where
  "on_catch e =
     (case e of
        ErrorObject name message \<Rightarrow>
          if name = str ''AbortError'' then [OnError (str ''Request cancelled'')]
          else [OnError message]
      | NotAnError \<Rightarrow> [OnError (str ''An unknown error occurred'')])"

fun read_loop :: "text_decoder \<Rightarrow> jstring \<Rightarrow> read_result list \<Rightarrow> call list" where
  \<comment> \<open>\<open>while (true)\<close> over the results of \<open>reader.read()\<close>; the end of the list is \<open>done\<close>\<close>
  "read_loop td buffer [] = [OnComplete]"
| "read_loop td buffer (Rejects e # rs) = on_catch e"
| "read_loop td buffer (Value v # rs) =
     (case decode td v of (td', text) \<Rightarrow>
        (let lines = split_on 0x0A (buffer @ text)
         in case for_lines (butlast lines) of
              (cs, Return) \<Rightarrow> cs
            | (cs, Continue) \<Rightarrow> cs @ read_loop td' (last lines) rs))"

definition sendMessageToWeatherAgent :: "fetch_outcome \<Rightarrow> call list" where
  \<comment> \<open>the calls made for one request, given what \<open>fetch\<close> and the body stream do\<close>
  "sendMessageToWeatherAgent outcome =
     (case outcome of
        FetchRejects e \<Rightarrow> on_catch e
      | NotOk status body \<Rightarrow>
          on_catch (ErrorObject (str ''Error'')
            (str ''HTTP '' @ status @ (if body \<noteq> [] then str '' - '' @ body else [])))
      | NoBody \<Rightarrow> on_catch (ErrorObject (str ''Error'') (str ''No response body reader available''))
      | Body reads \<Rightarrow> read_loop new_TextDecoder [] reads)"

definition bytes :: "string \<Rightarrow> byte list" where
  "bytes s = map of_char s"

definition fragments :: "call list \<Rightarrow> jstring list" where
  "fragments cs = concat (map (\<lambda>c. case c of OnChunk x \<Rightarrow> [x] | _ \<Rightarrow> []) cs)"

definition decoded_text :: "byte list \<Rightarrow> jstring" where
  \<comment> \<open>the text a fresh decoder makes of the bytes of a stream\<close>
  "decoded_text bs = snd (decode new_TextDecoder bs)"

definition complete_lines :: "jstring \<Rightarrow> jstring list" where
  \<comment> \<open>the lines of a text that are closed by a line feed\<close>
  "complete_lines t = butlast (split_on 0x0A t)"

section \<open>Properties of the reader\<close>

lemma decode_bytes_append:
  "decode_bytes d (a @ b) =
     (case decode_bytes d a of (d1, o1) \<Rightarrow>
        (case decode_bytes d1 b of (d2, o2) \<Rightarrow> (d2, o1 @ o2)))"
  by (induction a arbitrary: d) (simp_all split: prod.splits)

lemma serialize_append:
  "serialize seen (a @ b) =
     (case serialize seen a of (s1, o1) \<Rightarrow>
        (case serialize s1 b of (s2, o2) \<Rightarrow> (s2, o1 @ o2)))"
  by (induction a arbitrary: seen) (simp_all split: prod.splits)

lemma decode_append:
  "decode td (a @ b) =
     (case decode td a of (td1, t1) \<Rightarrow>
        (case decode td1 b of (td2, t2) \<Rightarrow> (td2, t1 @ t2)))"
  by (simp add: decode_def decode_bytes_append serialize_append split: prod.splits)

lemma decode_Nil: "decode td [] = (td, [])"
  by (simp add: decode_def)

lemma split_on_not_Nil [simp]: "split_on d s \<noteq> []"
  by (induction s) (simp_all split: list.splits)


lemma split_on_no_sep: "d \<notin> set s \<Longrightarrow> split_on d s = [s]"
  by (induction s) auto

lemma split_on_append:
  "split_on d (a @ b) =
     butlast (split_on d a) @ (last (split_on d a) @ hd (split_on d b)) # tl (split_on d b)"
proof (induction a)
  case Nil
  then show ?case by simp
next
  case (Cons c a)
  obtain l ls where s: "split_on d a = l # ls" by (cases "split_on d a") simp_all
  show ?case
  proof (cases "c = d")
    case True
    then show ?thesis by (simp add: Cons.IH)
  next
    case False
    then show ?thesis by (cases ls) (simp_all add: Cons.IH s)
  qed
qed

lemma last_split_on_no_sep: "d \<notin> set (last (split_on d s))"
proof (induction s)
  case Nil
  then show ?case by simp
next
  case (Cons c s)
  obtain l ls where s: "split_on d s = l # ls" by (cases "split_on d s") simp_all
  with Cons show ?case by (cases ls) (auto simp: s)
qed

lemma complete_lines_no_sep: "0x0A \<notin> set s \<Longrightarrow> complete_lines s = []"
  by (simp add: complete_lines_def split_on_no_sep)

lemma complete_lines_append:
  "complete_lines (x @ y) = complete_lines x @ complete_lines (last (split_on 0x0A x) @ y)"
proof -
  let ?b = "last (split_on 0x0A x)"
  have b: "split_on 0x0A ?b = [?b]"
    by (rule split_on_no_sep) (rule last_split_on_no_sep)
  have "split_on 0x0A (?b @ y) = (?b @ hd (split_on 0x0A y)) # tl (split_on 0x0A y)"
    by (subst split_on_append) (simp add: b)
  then show ?thesis
    by (simp add: complete_lines_def split_on_append [of _ x y] butlast_append)
qed

lemma last_split_on_append:
  "last (split_on 0x0A (x @ y)) = last (split_on 0x0A (last (split_on 0x0A x) @ y))"
proof -
  let ?b = "last (split_on 0x0A x)"
  have b: "split_on 0x0A ?b = [?b]"
    by (rule split_on_no_sep) (rule last_split_on_no_sep)
  have "split_on 0x0A (?b @ y) = (?b @ hd (split_on 0x0A y)) # tl (split_on 0x0A y)"
    by (subst split_on_append) (simp add: b)
  then show ?thesis
    by (simp add: split_on_append [of _ x y])
qed

lemma for_lines_append:
  "for_lines (xs @ ys) =
     (case for_lines xs of
        (cs, Return) \<Rightarrow> (cs, Return)
      | (cs, Continue) \<Rightarrow> (case for_lines ys of (cs', f) \<Rightarrow> (cs @ cs', f)))"
  by (induction xs) (simp_all add: Let_def split: prod.splits flow.splits)

lemma read_loop_Value:
  "read_loop td buffer (Value v # rs) =
     (case decode td v of (td', text) \<Rightarrow>
        (case for_lines (complete_lines (buffer @ text)) of
           (cs, Return) \<Rightarrow> cs
         | (cs, Continue) \<Rightarrow> cs @ read_loop td' (last (split_on 0x0A (buffer @ text))) rs))"
  by (simp add: complete_lines_def Let_def)

lemma read_loop_lines:
  assumes "0x0A \<notin> set buffer"
  shows "read_loop td buffer (map Value chunks @ rest) =
     (case decode td (concat chunks) of (td', text) \<Rightarrow>
        (case for_lines (complete_lines (buffer @ text)) of
           (cs, Return) \<Rightarrow> cs
         | (cs, Continue) \<Rightarrow> cs @ read_loop td' (last (split_on 0x0A (buffer @ text))) rest))"
  using assms
proof (induction chunks arbitrary: td buffer)
  case Nil
  then show ?case
    by (simp add: decode_Nil complete_lines_no_sep split_on_no_sep)
next
  case (Cons c chunks)
  obtain td1 t1 where d1: "decode td c = (td1, t1)" by (cases "decode td c")
  obtain td2 t2 where d2: "decode td1 (concat chunks) = (td2, t2)"
    by (cases "decode td1 (concat chunks)")
  let ?b = "last (split_on 0x0A (buffer @ t1))"
  have ih: "read_loop td1 ?b (map Value chunks @ rest) =
     (case for_lines (complete_lines (?b @ t2)) of
           (cs, Return) \<Rightarrow> cs
         | (cs, Continue) \<Rightarrow> cs @ read_loop td2 (last (split_on 0x0A (?b @ t2))) rest)"
    using Cons.IH [of ?b td1] last_split_on_no_sep [of "0x0A" "buffer @ t1"] by (simp add: d2)
  have d: "decode td (c @ concat chunks) = (td2, t1 @ t2)"
    by (simp add: decode_append d1 d2)
  have cl: "complete_lines (buffer @ t1 @ t2) =
      complete_lines (buffer @ t1) @ complete_lines (?b @ t2)"
    using complete_lines_append [of "buffer @ t1" t2] by simp
  have la: "last (split_on 0x0A (buffer @ t1 @ t2)) = last (split_on 0x0A (?b @ t2))"
    using last_split_on_append [of "buffer @ t1" t2] by simp
  obtain e1 f1 where f: "for_lines (complete_lines (buffer @ t1)) = (e1, f1)"
    by (cases "for_lines (complete_lines (buffer @ t1))")
  have lhs: "read_loop td buffer (map Value (c # chunks) @ rest) =
      (case f1 of Return \<Rightarrow> e1
       | Continue \<Rightarrow> e1 @ read_loop td1 ?b (map Value chunks @ rest))"
    by (simp only: list.map append_Cons read_loop_Value d1 f prod.case)
  have rhs: "(case decode td (concat (c # chunks)) of (td', text) \<Rightarrow>
        (case for_lines (complete_lines (buffer @ text)) of
           (cs, Return) \<Rightarrow> cs
         | (cs, Continue) \<Rightarrow> cs @ read_loop td' (last (split_on 0x0A (buffer @ text))) rest)) =
      (case for_lines (complete_lines (buffer @ t1) @ complete_lines (?b @ t2)) of
           (cs, Return) \<Rightarrow> cs
         | (cs, Continue) \<Rightarrow> cs @ read_loop td2 (last (split_on 0x0A (?b @ t2))) rest)"
    by (simp only: concat.simps d prod.case cl la)
  show ?case
    unfolding lhs rhs ih for_lines_append f
    by (cases f1) (simp_all split: prod.splits flow.splits)
qed

lemma send_Body_lines:
  "sendMessageToWeatherAgent (Body (map Value chunks @ rest)) =
     (case decode new_TextDecoder (concat chunks) of (td', text) \<Rightarrow>
        (case for_lines (complete_lines text) of
           (cs, Return) \<Rightarrow> cs
         | (cs, Continue) \<Rightarrow> cs @ read_loop td' (last (split_on 0x0A text)) rest))"
  using read_loop_lines [of "[]" new_TextDecoder chunks rest]
  by (simp add: sendMessageToWeatherAgent_def)

lemma send_Body_complete:
  "sendMessageToWeatherAgent (Body (map Value chunks)) =
     (case for_lines (complete_lines (decoded_text (concat chunks))) of
        (cs, Return) \<Rightarrow> cs
      | (cs, Continue) \<Rightarrow> cs @ [OnComplete])"
  using send_Body_lines [of chunks "[]"]
  by (simp add: decoded_text_def split: prod.splits)

text \<open>
  Claim C1. The calls the reader makes depend on the bytes of the stream only, not on how
  they are cut into chunks: a stream read in any chunks gives the same trace, and so the
  same fragments in the same order, as the same bytes read as one chunk. The cuts may
  fall anywhere, inside a line or inside the bytes of one character.
\<close>

theorem reader_chunking_invariant:
  "sendMessageToWeatherAgent (Body (map Value chunks)) =
     sendMessageToWeatherAgent (Body [Value (concat chunks)]) \<and>
   fragments (sendMessageToWeatherAgent (Body (map Value chunks))) =
     fragments (sendMessageToWeatherAgent (Body [Value (concat chunks)]))"
proof -
  have "sendMessageToWeatherAgent (Body (map Value [concat chunks])) =
     (case for_lines (complete_lines (decoded_text (concat [concat chunks]))) of
        (cs, Return) \<Rightarrow> cs
      | (cs, Continue) \<Rightarrow> cs @ [OnComplete])"
    by (rule send_Body_complete)
  then have "sendMessageToWeatherAgent (Body (map Value chunks)) =
     sendMessageToWeatherAgent (Body [Value (concat chunks)])"
    by (simp add: send_Body_complete [of chunks])
  then show ?thesis by simp
qed

lemma for_lines_done:
  "for_lines (str ''data: [DONE]'' # post) = ([OnComplete], Return)"
proof -
  have "trim (str ''data: [DONE]'') \<noteq> []" by code_simp
  moreover have "startsWith (str ''data: [DONE]'') (str ''data: '')" by code_simp
  moreover have "slice_from (str ''data: [DONE]'') 6 = str ''[DONE]''" by code_simp
  ultimately show ?thesis by (simp add: Let_def)
qed

text \<open>
  Claim C3. When the line \<open>data: [DONE]\<close> is among the complete lines read so far and no
  earlier line ended the run, the reader calls \<open>onComplete\<close> right after the calls made
  for the lines before it and returns: the trace has nothing for the lines \<open>post\<close> buffered
  behind the sentinel, and nothing for the reads \<open>rest\<close> that the stream still holds. When
  the stream ends and no line was the sentinel, the trace ends with \<open>onComplete\<close> as well.
\<close>

theorem reader_completion:
  "(complete_lines (decoded_text (concat chunks)) = pre @ str ''data: [DONE]'' # post \<and>
    for_lines pre = (cs, Continue) \<longrightarrow>
      sendMessageToWeatherAgent (Body (map Value chunks @ rest)) = cs @ [OnComplete]) \<and>
   (for_lines (complete_lines (decoded_text (concat chunks'))) = (cs', Continue) \<longrightarrow>
      sendMessageToWeatherAgent (Body (map Value chunks')) = cs' @ [OnComplete])"
proof (intro conjI impI)
  assume a: "complete_lines (decoded_text (concat chunks)) = pre @ str ''data: [DONE]'' # post \<and>
    for_lines pre = (cs, Continue)"
  obtain td' tx where d: "decode new_TextDecoder (concat chunks) = (td', tx)"
    by (cases "decode new_TextDecoder (concat chunks)")
  then have t: "decoded_text (concat chunks) = tx" by (simp add: decoded_text_def)
  from a have cl: "complete_lines tx = pre @ str ''data: [DONE]'' # post"
    and fp: "for_lines pre = (cs, Continue)"
    by (simp_all only: t)
  have "for_lines (complete_lines tx) = (cs @ [OnComplete], Return)"
    by (simp only: cl for_lines_append fp for_lines_done prod.case flow.case)
  then show "sendMessageToWeatherAgent (Body (map Value chunks @ rest)) = cs @ [OnComplete]"
    by (simp add: send_Body_lines d)
next
  assume "for_lines (complete_lines (decoded_text (concat chunks'))) = (cs', Continue)"
  then show "sendMessageToWeatherAgent (Body (map Value chunks')) = cs' @ [OnComplete]"
    by (simp add: send_Body_complete)
qed

theorem reader_completion_witness:
  "sendMessageToWeatherAgent
     (Body [Value (bytes ''data: 0:\"Hi\"\<newline>da''),
            Value (bytes ''ta: [DONE]\<newline>data: 0:\"lost\"\<newline>''),
            Value (bytes ''data: 0:\"never read\"\<newline>'')]) =
     [Extract (str ''0:\"Hi\"''), OnChunk (str ''Hi''), OnComplete] \<and>
   sendMessageToWeatherAgent (Body [Value (bytes ''data: 0:\"Hi\"\<newline>'')]) =
     [Extract (str ''0:\"Hi\"''), OnChunk (str ''Hi''), OnComplete]"
proof -
  let ?chunks = "[bytes ''data: 0:\"Hi\"\<newline>da'', bytes ''ta: [DONE]\<newline>data: 0:\"lost\"\<newline>'']"
  let ?rest = "[Value (bytes ''data: 0:\"never read\"\<newline>'')]"
  let ?pre = "[str ''data: 0:\"Hi\"'']"
  let ?post = "[str ''data: 0:\"lost\"'']"
  let ?cs = "[Extract (str ''0:\"Hi\"''), OnChunk (str ''Hi'')]"
  let ?chunks' = "[bytes ''data: 0:\"Hi\"\<newline>'']"
  have h1: "complete_lines (decoded_text (concat ?chunks)) = ?pre @ str ''data: [DONE]'' # ?post"
    by code_simp
  have h2: "for_lines ?pre = (?cs, Continue)" by code_simp
  have h3: "for_lines (complete_lines (decoded_text (concat ?chunks'))) = (?cs, Continue)"
    by code_simp
  from reader_completion [of ?chunks ?pre ?post ?cs ?rest ?chunks' ?cs] h1 h2 h3
  show ?thesis by simp
qed

lemma fragments_append [simp]: "fragments (a @ b) = fragments a @ fragments b"
  by (simp add: fragments_def)

lemma fragments_emit: "[] \<notin> set (fragments (emit p))"
  by (simp add: emit_def fragments_def Let_def)

lemma fragments_for_lines: "[] \<notin> set (fragments (fst (for_lines ls)))"
proof (induction ls)
  case Nil
  then show ?case by (simp add: fragments_def)
next
  case (Cons l ls)
  obtain cs f where r: "for_lines ls = (cs, f)" by (cases "for_lines ls")
  with Cons have cs: "[] \<notin> set (fragments cs)" by simp
  have dn: "[] \<notin> set (fragments [OnComplete])" by (simp add: fragments_def)
  show ?case
    using cs dn fragments_emit [of l] fragments_emit [of "slice_from l 6"]
    by (simp add: r Let_def)
qed

lemma fragments_on_catch: "fragments (on_catch e) = []"
  by (cases e) (simp_all add: on_catch_def fragments_def)

lemma fragments_read_loop: "[] \<notin> set (fragments (read_loop td buffer reads))"
proof (induction td buffer reads rule: read_loop.induct)
  case (1 td buffer)
  then show ?case by (simp add: fragments_def)
next
  case (2 td buffer e rs)
  then show ?case by (simp add: fragments_on_catch)
next
  case (3 td buffer v rs)
  obtain td' tx where d: "decode td v = (td', tx)" by (cases "decode td v")
  obtain cs f where r: "for_lines (butlast (split_on 0x0A (buffer @ tx))) = (cs, f)"
    by (cases "for_lines (butlast (split_on 0x0A (buffer @ tx)))")
  have cs: "[] \<notin> set (fragments cs)"
    using fragments_for_lines [of "butlast (split_on 0x0A (buffer @ tx))"] by (simp add: r)
  show ?case
  proof (cases f)
    case Return
    with cs show ?thesis by (simp add: d r Let_def)
  next
    case Continue
    have "[] \<notin> set (fragments (read_loop td' (last (split_on 0x0A (buffer @ tx))) rs))"
      using "3.IH" [OF d [symmetric] refl r [symmetric] Continue] .
    with cs Continue show ?thesis by (simp add: d r Let_def)
  qed
qed

lemma for_lines_blank: "for_lines (filter (\<lambda>l. trim l \<noteq> []) ls) = for_lines ls"
  by (induction ls) (simp_all add: Let_def)

text \<open>
  Claim C4. Whatever \<open>fetch\<close> and the stream do, no fragment given to \<open>onChunk\<close> is the
  empty string: the result of the extractor is passed on after the escaped line feeds are
  replaced, and only if it is not empty then. Lines of whitespace only make no call at all,
  neither to the extractor nor to a callback: the loop over the lines does the same with
  and without them.
\<close>

theorem reader_fragments_nonempty:
  "[] \<notin> set (fragments (sendMessageToWeatherAgent outcome)) \<and>
   for_lines (filter (\<lambda>l. trim l \<noteq> []) ls) = for_lines ls"
proof
  show "[] \<notin> set (fragments (sendMessageToWeatherAgent outcome))"
    by (cases outcome)
      (simp_all add: sendMessageToWeatherAgent_def fragments_on_catch fragments_read_loop)
  show "for_lines (filter (\<lambda>l. trim l \<noteq> []) ls) = for_lines ls"
    by (rule for_lines_blank)
qed

lemma complete_lines_tail:
  assumes "0x0A \<notin> set b" "t = [] \<or> last t = 0x0A"
  shows "complete_lines (t @ b) = complete_lines t"
proof -
  have l: "last (split_on 0x0A t) = []"
  proof (cases "t = []")
    case True
    then show ?thesis by simp
  next
    case False
    with assms(2) have "t = butlast t @ [0x0A]" by (metis append_butlast_last_id)
    then have "split_on 0x0A t = split_on 0x0A (butlast t @ [0x0A])" by simp
    also have "\<dots> = butlast (split_on 0x0A (butlast t)) @
                       (last (split_on 0x0A (butlast t)) @ hd (split_on 0x0A [0x0A])) #
                       tl (split_on 0x0A [0x0A])"
      by (rule split_on_append)
    finally show ?thesis by simp
  qed
  show ?thesis
    using complete_lines_append [of t b] assms(1)
    by (simp add: l complete_lines_no_sep)
qed

text \<open>
  Claim C10. Let the decoded text of a stream be \<open>t\<close>, which is empty or ends with a line
  feed, followed by a tail \<open>b\<close> without a line feed, and let no line of \<open>t\<close> be the
  sentinel. Then the trace is the calls made for the lines of \<open>t\<close> followed by
  \<open>onComplete\<close>: the tail \<open>b\<close> is not passed to the extractor and gives no fragment, and
  the run still completes.
\<close>

theorem reader_drops_unterminated_tail:
  assumes "decoded_text (concat chunks) = t @ b"
    and "0x0A \<notin> set b"
    and "t = [] \<or> last t = 0x0A"
    and "for_lines (complete_lines t) = (cs, Continue)"
  shows "sendMessageToWeatherAgent (Body (map Value chunks)) = cs @ [OnComplete]"
  by (simp add: send_Body_complete assms(1) complete_lines_tail [OF assms(2,3)] assms(4))

theorem reader_drops_unterminated_tail_witness:
  "sendMessageToWeatherAgent
     (Body [Value (bytes ''data: 0:\"Mum''), Value (bytes ''bai\"\<newline>data: 0:\" Now: 28C\"'')]) =
   [Extract (str ''0:\"Mumbai\"''), OnChunk (str ''Mumbai''), OnComplete]"
proof -
  let ?chunks = "[bytes ''data: 0:\"Mum'', bytes ''bai\"\<newline>data: 0:\" Now: 28C\"'']"
  let ?t = "str ''data: 0:\"Mumbai\"\<newline>''"
  let ?b = "str ''data: 0:\" Now: 28C\"''"
  let ?cs = "[Extract (str ''0:\"Mumbai\"''), OnChunk (str ''Mumbai'')]"
  have h1: "decoded_text (concat ?chunks) = ?t @ ?b" by code_simp
  have h2: "0x0A \<notin> set ?b" by code_simp
  have h3: "?t = [] \<or> last ?t = 0x0A" by code_simp
  have h4: "for_lines (complete_lines ?t) = (?cs, Continue)" by code_simp
  from reader_drops_unterminated_tail [OF h1 h2 h3 h4] show ?thesis by simp
qed

section \<open>The stream session controller (hooks/useWeatherStream.ts)\<close>

text \<open>
  The hook has two observables and a reference to the controller of its last request.
  \<open>send\<close> aborts that controller, makes a new one, resets the observables and starts a
  request with callbacks of its own; \<open>cancel\<close> only aborts the controller.

  A request runs from one \<open>await\<close> to the next: it waits for its \<open>fetch\<close>, for the text of
  a response that is not ok, or for a \<open>read\<close> of its body. The model is a step function
  over events, one event for each turn of the event loop: a call of \<open>send\<close>, a call of
  \<open>cancel\<close>, or the settling of what request \<open>k\<close> waits for, upon which that request runs
  up to its next \<open>await\<close> and makes its calls. The request started by the \<open>k\<close>-th \<open>send\<close>
  has controller \<open>k\<close>. What the server and the network have in store for a request is
  given with its \<open>send\<close> event. When the controller of a request is aborted while the
  request waits, the platform rejects what it waits for with an error object named
  \<open>AbortError\<close>. When it is aborted by a callback of the request itself, the request runs
  on to its next \<open>read\<close>, which the platform rejects as long as the body is not at its end;
  the model rejects it in every case.
\<close>

record hook_state =
  isLoading :: bool
  error :: "jstring option"

definition friendly :: "bool \<Rightarrow> jstring \<Rightarrow> jstring" where
  \<comment> \<open>\<open>offline\<close> is \<open>typeof window !== 'undefined' && !navigator.onLine\<close>\<close>
  "friendly offline err =
     (if offline then str ''You are offline. Check your connection and try again.''
      else if err = str ''Failed to fetch'' then str ''Network error. Please try again.''
      else err)"

fun callback :: "bool \<Rightarrow> hook_state \<times> jstring list \<Rightarrow> call \<Rightarrow> hook_state \<times> jstring list" where
  \<comment> \<open>what a call of the reader does to the observables and to the fragments handed to
      the caller's \<open>onChunk\<close>, through the callbacks that \<open>send\<close> gives to the reader\<close>
  "callback offline (st, out) (Extract p) = (st, out)"
| "callback offline (st, out) (OnChunk c) = (st, out @ [c])"
| "callback offline (st, out) (OnError e) =
     (st\<lparr>error := Some (friendly offline e), isLoading := False\<rparr>, out)"
| "callback offline (st, out) OnComplete = (st\<lparr>isLoading := False\<rparr>, out)"

definition abort_error :: thrown where
  \<comment> \<open>what the platform rejects with when the signal of a request is aborted; the message
      differs between platforms and is not read by the program\<close>
  "abort_error = ErrorObject (str ''AbortError'') (str ''The operation was aborted.'')"

datatype op_state =
  \<comment> \<open>where a request stands: the \<open>await\<close> at which it is suspended, with what the platform
      has in store for it if its signal is not aborted, and the decoder and the line
      buffer of the read loop\<close>
    AwaitFetch fetch_outcome
  | AwaitText jstring jstring
  | AwaitRead text_decoder jstring "read_result list"
  | Finished

definition settle :: "bool \<Rightarrow> op_state \<Rightarrow> call list \<times> op_state" where
  \<comment> \<open>the request runs on from its \<open>await\<close> to the next one, or to its end, and makes its
      calls; \<open>ab\<close> says that its signal is aborted, so that what it waited for is rejected
      with \<open>AbortError\<close>. The text of a failed response is read by
      \<open>response.text().catch(() => '')\<close>: a rejection gives the empty text. The loop over
      the lines of a chunk does not read the signal: an abort issued while the request
      runs has its effect at the next \<open>await\<close>.\<close>
  "settle ab op =
     (case op of
        AwaitFetch outcome \<Rightarrow>
          if ab then (on_catch abort_error, Finished)
          else
            (case outcome of
               FetchRejects e \<Rightarrow> (on_catch e, Finished)
             | NotOk status body \<Rightarrow> ([], AwaitText status body)
             | NoBody \<Rightarrow>
                 (on_catch (ErrorObject (str ''Error'') (str ''No response body reader available'')),
                  Finished)
             | Body reads \<Rightarrow> ([], AwaitRead new_TextDecoder [] reads))
      | AwaitText status body \<Rightarrow>
          (let body = (if ab then [] else body) in
           (on_catch (ErrorObject (str ''Error'')
              (str ''HTTP '' @ status @ (if body \<noteq> [] then str '' - '' @ body else []))),
            Finished))
      | AwaitRead td buffer reads \<Rightarrow>
          if ab then (on_catch abort_error, Finished)
          else
            (case reads of
               [] \<Rightarrow> ([OnComplete], Finished)
             | Rejects e # rs \<Rightarrow> (on_catch e, Finished)
             | Value v # rs \<Rightarrow>
                 (case decode td v of
                    (td', tx) \<Rightarrow>
                      (let lines = split_on 0x0A (buffer @ tx) in
                       case for_lines (butlast lines) of
                         (cs, Return) \<Rightarrow> (cs, Finished)
                       | (cs, Continue) \<Rightarrow> (cs, AwaitRead td' (last lines) rs))))
      | Finished \<Rightarrow> ([], Finished))"

definition calls_of :: "op_state \<Rightarrow> call list" where
  \<comment> \<open>the calls that an operation still makes when it is never aborted\<close>
  "calls_of op =
     (case op of
        AwaitFetch outcome \<Rightarrow> sendMessageToWeatherAgent outcome
      | AwaitText status body \<Rightarrow> sendMessageToWeatherAgent (NotOk status body)
      | AwaitRead td buffer reads \<Rightarrow> read_loop td buffer reads
      | Finished \<Rightarrow> [])"

fun awaits_fetch_or_read :: "op_state \<Rightarrow> bool" where
  "awaits_fetch_or_read (AwaitFetch outcome) = True"
| "awaits_fetch_or_read (AwaitRead td buffer reads) = True"
| "awaits_fetch_or_read op = False"

record session =
  \<comment> \<open>\<open>abortRef\<close> holds the number of the controller in \<open>abortRef.current\<close>, \<open>aborted\<close> the
      controllers whose signal is aborted, \<open>ops\<close> the requests in the order of their \<open>send\<close>,
      each with the fragments upon which the caller's \<open>onChunk\<close> calls \<open>cancel\<close>, and
      \<open>calls\<close> every call made so far with the number of its request\<close>
  observables :: hook_state
  abortRef :: "nat option"
  aborted :: "nat list"
  ops :: "(op_state \<times> (jstring \<Rightarrow> bool)) list"
  calls :: "(nat \<times> call) list"

definition new_session :: session where
  "new_session =
     \<lparr>observables = \<lparr>isLoading = False, error = None\<rparr>, abortRef = None, aborted = [],
      ops = [], calls = []\<rparr>"

definition cancel :: "session \<Rightarrow> session" where
  \<comment> \<open>\<open>if (abortRef.current) abortRef.current.abort()\<close>\<close>
  "cancel s = (case abortRef s of None \<Rightarrow> s | Some k \<Rightarrow> s\<lparr>aborted := k # aborted s\<rparr>)"

definition send :: "fetch_outcome \<Rightarrow> (jstring \<Rightarrow> bool) \<Rightarrow> session \<Rightarrow> session" where
  \<comment> \<open>\<open>send\<close> up to the \<open>await\<close> of the \<open>fetch\<close> of its request: \<open>outcome\<close> is what the platform
      has in store for the request, \<open>cancels\<close> says upon which fragments the \<open>onChunk\<close>
      given to \<open>send\<close> calls \<open>cancel\<close>\<close>
  "send outcome cancels s =
     (let s1 = cancel s;
          k = length (ops s1)
      in s1\<lparr>abortRef := Some k,
            observables := (observables s1)\<lparr>isLoading := True, error := None\<rparr>,
            ops := ops s1 @ [(AwaitFetch outcome, cancels)]\<rparr>)"

definition deliver :: "bool \<Rightarrow> nat \<Rightarrow> (jstring \<Rightarrow> bool) \<Rightarrow> session \<Rightarrow> call \<Rightarrow> session" where
  \<comment> \<open>one call of request \<open>k\<close>: the callbacks that \<open>send\<close> hands to the reader set the
      observables, and the caller's \<open>onChunk\<close> may call \<open>cancel\<close>\<close>
  "deliver offline k cancels s c =
     (let s1 = s\<lparr>observables := fst (callback offline (observables s, []) c),
                 calls := calls s @ [(k, c)]\<rparr>
      in case c of OnChunk x \<Rightarrow> if cancels x then cancel s1 else s1 | _ \<Rightarrow> s1)"

datatype event =
  \<comment> \<open>a call of \<open>send\<close>, a call of \<open>cancel\<close>, and the settling of what request \<open>k\<close> waits for\<close>
  Send fetch_outcome "jstring \<Rightarrow> bool" | Cancel | Settle nat

fun step :: "bool \<Rightarrow> session \<Rightarrow> event \<Rightarrow> session" where
  "step offline s (Send outcome cancels) = send outcome cancels s"
| "step offline s Cancel = cancel s"
| "step offline s (Settle k) =
     (if k < length (ops s) then
        (case ops s ! k of
           (op, cancels) \<Rightarrow>
             (case settle (k \<in> set (aborted s)) op of
                (cs, op') \<Rightarrow>
                  foldl (deliver offline k cancels) (s\<lparr>ops := (ops s)[k := (op', cancels)]\<rparr>) cs))
      else s)"

definition no_cancel :: "jstring \<Rightarrow> bool" where
  "no_cancel x = False"

definition cancel_on :: "jstring \<Rightarrow> jstring \<Rightarrow> bool" where
  "cancel_on y x = (x = y)"

definition calls_by :: "nat \<Rightarrow> session \<Rightarrow> call list" where
  \<comment> \<open>the calls that operation \<open>k\<close> has made so far\<close>
  "calls_by k s = map snd (filter (\<lambda>x. fst x = k) (calls s))"

definition server_error :: fetch_outcome where
  "server_error = NotOk (str ''500 Internal Server Error'') (str ''out of service'')"

definition fragments_and_sentinel :: fetch_outcome where
  "fragments_and_sentinel =
     Body [Value (bytes ''data: 0:\"Hi\"\<newline>data: 0:\" there\"\<newline>data: [DONE]\<newline>''),
           Value (bytes ''data: 0:\" again\"\<newline>'')]"

definition three_fragments :: fetch_outcome where
  "three_fragments =
     Body [Value (bytes ''data: 0:\"Hi\"\<newline>data: 0:\" there\"\<newline>''),
           Value (bytes ''data: 0:\" again\"\<newline>'')]"

definition two_fragments :: fetch_outcome where
  "two_fragments =
     Body [Value (bytes ''data: 0:\"Hi\"\<newline>''), Value (bytes ''data: 0:\" there\"\<newline>'')]"

text \<open>
  A request that is never aborted makes, step by step, the calls of the reader.
\<close>

lemma settle_calls:
  "settle False op = (cs, op') \<Longrightarrow> calls_of op = cs @ calls_of op'"
  by (cases op)
    (auto simp: settle_def calls_of_def sendMessageToWeatherAgent_def Let_def
      split: fetch_outcome.splits list.splits read_result.splits prod.splits flow.splits)

lemma settle_aborted:
  "awaits_fetch_or_read op \<Longrightarrow>
   settle True op = ([OnError (str ''Request cancelled'')], Finished)"
  by (cases op) (simp_all add: settle_def on_catch_def abort_error_def)

lemma cancel_fields [simp]:
  "observables (cancel s) = observables s"
  "abortRef (cancel s) = abortRef s"
  "ops (cancel s) = ops s"
  "calls (cancel s) = calls s"
  by (simp_all add: cancel_def split: option.splits)

lemma aborted_cancel:
  "aborted (cancel s) = (case abortRef s of None \<Rightarrow> aborted s | Some k \<Rightarrow> k # aborted s)"
  by (simp add: cancel_def split: option.splits)

lemma cancel_aborted:
  "set (aborted s) \<subseteq> set (aborted (cancel s))"
  "abortRef s = Some k \<Longrightarrow> k \<in> set (aborted (cancel s))"
  by (auto simp: aborted_cancel split: option.splits)

lemma deliver_fields [simp]:
  "ops (deliver offline k cancels s c) = ops s"
  "abortRef (deliver offline k cancels s c) = abortRef s"
  "calls (deliver offline k cancels s c) = calls s @ [(k, c)]"
  "observables (deliver offline k cancels s c) = fst (callback offline (observables s, []) c)"
  by (simp_all add: deliver_def Let_def split: call.splits)

lemma aborted_deliver:
  "aborted (deliver offline k cancels s c) =
     (case c of
        OnChunk x \<Rightarrow>
          if cancels x then (case abortRef s of None \<Rightarrow> aborted s | Some j \<Rightarrow> j # aborted s)
          else aborted s
      | _ \<Rightarrow> aborted s)"
  by (simp add: deliver_def Let_def aborted_cancel split: call.splits option.splits)

lemma deliver_aborted:
  "set (aborted s) \<subseteq> set (aborted (deliver offline k cancels s c))"
  by (auto simp: aborted_deliver split: call.splits option.splits)

lemma deliver_cancels:
  "abortRef s = Some j \<Longrightarrow> cancels x \<Longrightarrow>
   j \<in> set (aborted (deliver offline k cancels s (OnChunk x)))"
  by (simp add: aborted_deliver)

lemma foldl_deliver_fields [simp]:
  "ops (foldl (deliver offline k cancels) s cs) = ops s"
  "abortRef (foldl (deliver offline k cancels) s cs) = abortRef s"
  "calls (foldl (deliver offline k cancels) s cs) = calls s @ map (Pair k) cs"
  by (induction cs arbitrary: s) simp_all

lemma foldl_deliver_aborted:
  "set (aborted s) \<subseteq> set (aborted (foldl (deliver offline k cancels) s cs))"
proof (induction cs arbitrary: s)
  case Nil
  then show ?case by simp
next
  case (Cons c cs)
  from deliver_aborted [of s offline k cancels c] Cons [of "deliver offline k cancels s c"]
  show ?case by auto
qed

lemma foldl_deliver_cancels:
  assumes "abortRef s = Some j" and "OnChunk x \<in> set cs" and "cancels x"
  shows "j \<in> set (aborted (foldl (deliver offline k cancels) s cs))"
  using assms(1,2)
proof (induction cs arbitrary: s)
  case Nil
  then show ?case by simp
next
  case (Cons c cs)
  show ?case
  proof (cases "c = OnChunk x")
    case True
    have "j \<in> set (aborted (deliver offline k cancels s (OnChunk x)))"
      using Cons.prems(1) assms(3) by (simp add: aborted_deliver)
    with foldl_deliver_aborted [of "deliver offline k cancels s c" offline k cancels cs] True
    show ?thesis by auto
  next
    case False
    with Cons.prems(2) have "OnChunk x \<in> set cs" by simp
    from Cons.IH [OF _ this, of "deliver offline k cancels s c"] Cons.prems(1)
    show ?thesis by simp
  qed
qed

lemma step_other:
  assumes "e \<noteq> Settle k" and "k < length (ops s)"
  shows "k < length (ops (step offline s e)) \<and> ops (step offline s e) ! k = ops s ! k \<and>
         set (aborted s) \<subseteq> set (aborted (step offline s e))"
proof (cases e)
  case (Send outcome cancels)
  with assms(2) cancel_aborted(1) [of s] show ?thesis
    by (simp add: send_def Let_def nth_append)
next
  case Cancel
  with assms(2) cancel_aborted(1) [of s] show ?thesis by simp
next
  case (Settle j)
  with assms(1) have ne: "j \<noteq> k" by simp
  show ?thesis
  proof (cases "j < length (ops s)")
    case False
    with Settle assms(2) show ?thesis by simp
  next
    case True
    obtain op cancels where o: "ops s ! j = (op, cancels)" by (cases "ops s ! j")
    obtain cs op' where t: "settle (j \<in> set (aborted s)) op = (cs, op')"
      by (cases "settle (j \<in> set (aborted s)) op")
    have "step offline s e =
        foldl (deliver offline j cancels) (s\<lparr>ops := (ops s)[j := (op', cancels)]\<rparr>) cs"
      using True by (simp add: Settle o t)
    with foldl_deliver_aborted [of "s\<lparr>ops := (ops s)[j := (op', cancels)]\<rparr>" offline j cancels cs]
      assms(2) ne
    show ?thesis by simp
  qed
qed

lemma foldl_step_other:
  assumes "\<forall>e\<in>set es. e \<noteq> Settle k" and "k < length (ops s)"
  shows "k < length (ops (foldl (step offline) s es)) \<and>
         ops (foldl (step offline) s es) ! k = ops s ! k \<and>
         set (aborted s) \<subseteq> set (aborted (foldl (step offline) s es))"
  using assms
proof (induction es arbitrary: s)
  case Nil
  then show ?case by simp
next
  case (Cons e es)
  from Cons.prems have e: "e \<noteq> Settle k" and es: "\<forall>e\<in>set es. e \<noteq> Settle k" by simp_all
  note 1 = step_other [OF e Cons.prems(2), of offline]
  from 1 have k: "k < length (ops (step offline s e))" by simp
  note 2 = Cons.IH [OF es k]
  from 1 2 show ?case by auto
qed

lemma step_Settle:
  assumes "k < length (ops s)" and "ops s ! k = (op, cancels)"
    and "settle (k \<in> set (aborted s)) op = (cs, op')"
  shows "step offline s (Settle k) =
     foldl (deliver offline k cancels) (s\<lparr>ops := (ops s)[k := (op', cancels)]\<rparr>) cs"
  using assms by simp

lemma settle_aborted_step:
  assumes "k < length (ops s)" and "awaits_fetch_or_read (fst (ops s ! k))"
    and "k \<in> set (aborted s)"
  shows "calls (step offline s (Settle k)) = calls s @ [(k, OnError (str ''Request cancelled''))] \<and>
         fst (ops (step offline s (Settle k)) ! k) = Finished \<and>
         observables (step offline s (Settle k)) =
           \<lparr>isLoading = False, error = Some (friendly offline (str ''Request cancelled''))\<rparr>"
proof -
  obtain op cancels where o: "ops s ! k = (op, cancels)" by (cases "ops s ! k")
  with assms(2) have "awaits_fetch_or_read op" by simp
  from settle_aborted [OF this] assms(3)
  have t: "settle (k \<in> set (aborted s)) op = ([OnError (str ''Request cancelled'')], Finished)"
    by simp
  show ?thesis
    unfolding step_Settle [OF assms(1) o t] using assms(1) by simp
qed


lemma calls_by_Settle:
  assumes "k < length (ops s)"
  shows "calls_by j (step offline s (Settle k)) =
     calls_by j s @
       (if j = k then fst (settle (k \<in> set (aborted s)) (fst (ops s ! k))) else [])"
proof -
  obtain op cancels where o: "ops s ! k = (op, cancels)" by (cases "ops s ! k")
  obtain cs op' where t: "settle (k \<in> set (aborted s)) op = (cs, op')"
    by (cases "settle (k \<in> set (aborted s)) op")
  have "filter (\<lambda>x. fst x = j) (map (Pair k) cs) = (if j = k then map (Pair k) cs else [])"
    by (induction cs) auto
  then show ?thesis
    unfolding step_Settle [OF assms o t] by (simp add: calls_by_def o t comp_def)
qed

lemma calls_by_other:
  assumes "e \<noteq> Settle k"
  shows "calls_by k (step offline s e) = calls_by k s"
proof (cases e)
  case (Send outcome cancels)
  then show ?thesis by (simp add: calls_by_def send_def Let_def)
next
  case Cancel
  then show ?thesis by (simp add: calls_by_def)
next
  case (Settle j)
  with assms have ne: "k \<noteq> j" by simp
  show ?thesis
  proof (cases "j < length (ops s)")
    case True
    from calls_by_Settle [OF this, of k offline] ne Settle show ?thesis by simp
  next
    case False
    with Settle show ?thesis by simp
  qed
qed

lemma foldl_calls_by_other:
  "\<forall>e\<in>set es. e \<noteq> Settle k \<Longrightarrow> calls_by k (foldl (step offline) s es) = calls_by k s"
  by (induction es arbitrary: s) (simp_all add: calls_by_other)

lemma finished_step:
  assumes "k < length (ops s)" and "fst (ops s ! k) = Finished"
  shows "k < length (ops (step offline s e)) \<and> fst (ops (step offline s e) ! k) = Finished \<and>
         calls_by k (step offline s e) = calls_by k s"
proof (cases "e = Settle k")
  case False
  from step_other [OF False assms(1), of offline] calls_by_other [OF False, of offline s] assms(2)
  show ?thesis by simp
next
  case True
  obtain cancels where o: "ops s ! k = (Finished, cancels)"
    using assms(2) by (cases "ops s ! k") simp
  have t: "settle (k \<in> set (aborted s)) Finished = ([], Finished)" by (simp add: settle_def)
  from step_Settle [OF assms(1) o t, of offline] calls_by_Settle [OF assms(1), of k offline]
    assms(1) True o t
  show ?thesis by simp
qed

lemma finished_stays:
  assumes "k < length (ops s)" and "fst (ops s ! k) = Finished"
  shows "calls_by k (foldl (step offline) s es) = calls_by k s"
  using assms
proof (induction es arbitrary: s)
  case Nil
  then show ?case by simp
next
  case (Cons e es)
  note 1 = finished_step [OF Cons.prems, of offline e]
  from 1 have "calls_by k (foldl (step offline) (step offline s e) es) =
      calls_by k (step offline s e)"
    by (intro Cons.IH) simp_all
  with 1 show ?case by simp
qed

lemma abort_current:
  assumes "abortRef s = Some k" and "k < length (ops s)"
    and "e = Cancel \<or> e = Send outcome cancels"
  shows "k < length (ops (step offline s e)) \<and> ops (step offline s e) ! k = ops s ! k \<and>
         k \<in> set (aborted (step offline s e)) \<and>
         calls_by k (step offline s e) = calls_by k s"
  using assms cancel_aborted(2) [OF assms(1)]
  by (auto simp: send_def Let_def nth_append calls_by_def)

lemma aborted_while_waiting:
  assumes k: "k < length (ops s)" and w: "awaits_fetch_or_read (fst (ops s ! k))"
    and a: "k \<in> set (aborted s)" and es: "\<forall>e'\<in>set es. e' \<noteq> Settle k"
  shows "calls_by k (foldl (step offline) s (es @ Settle k # es')) =
           calls_by k s @ [OnError (str ''Request cancelled'')] \<and>
         observables (foldl (step offline) s (es @ [Settle k])) =
           \<lparr>isLoading = False, error = Some (friendly offline (str ''Request cancelled''))\<rparr>"
proof -
  let ?s2 = "foldl (step offline) s es"
  let ?s3 = "step offline ?s2 (Settle k)"
  note 2 = foldl_step_other [OF es k, of offline]
  from 2 have k2: "k < length (ops ?s2)" by simp
  from 2 w have w2: "awaits_fetch_or_read (fst (ops ?s2 ! k))" by simp
  from 2 a have a2: "k \<in> set (aborted ?s2)" by auto
  note 3 = settle_aborted_step [OF k2 w2 a2, of offline]
  have k3: "k < length (ops ?s3)"
  proof -
    obtain op cn where o: "ops ?s2 ! k = (op, cn)" by (cases "ops ?s2 ! k")
    obtain cs op' where t: "settle (k \<in> set (aborted ?s2)) op = (cs, op')"
      by (cases "settle (k \<in> set (aborted ?s2)) op")
    show ?thesis unfolding step_Settle [OF k2 o t] using k2 by simp
  qed
  from 3 have f3: "fst (ops ?s3 ! k) = Finished" by simp
  have c2: "calls_by k ?s2 = calls_by k s"
    by (rule foldl_calls_by_other [OF es])
  have c3: "calls_by k ?s3 = calls_by k s @ [OnError (str ''Request cancelled'')]"
    using calls_by_Settle [OF k2, of k offline] settle_aborted [OF w2] a2 c2 by simp
  have "calls_by k (foldl (step offline) ?s3 es') = calls_by k ?s3"
    by (rule finished_stays [OF k3 f3])
  with c3 3 show ?thesis by simp
qed

lemma cancelled_while_waiting:
  assumes c: "abortRef s = Some k" and k: "k < length (ops s)"
    and w: "awaits_fetch_or_read (fst (ops s ! k))"
    and e: "e = Cancel \<or> e = Send outcome cancels"
    and es: "\<forall>e'\<in>set es. e' \<noteq> Settle k"
  shows "calls_by k (foldl (step offline) s (e # es @ Settle k # es')) =
           calls_by k s @ [OnError (str ''Request cancelled'')] \<and>
         observables (foldl (step offline) s (e # es @ [Settle k])) =
           \<lparr>isLoading = False, error = Some (friendly offline (str ''Request cancelled''))\<rparr>"
proof -
  note 1 = abort_current [OF c k e, of offline]
  from 1 have k1: "k < length (ops (step offline s e))"
    and a1: "k \<in> set (aborted (step offline s e))" by simp_all
  from 1 w have w1: "awaits_fetch_or_read (fst (ops (step offline s e) ! k))" by simp
  from aborted_while_waiting [OF k1 w1 a1 es, of offline es'] 1 show ?thesis by simp
qed

lemma cancelled_while_text:
  assumes c: "abortRef s = Some k" and k: "k < length (ops s)"
    and w: "fst (ops s ! k) = AwaitText status body"
    and e: "e = Cancel \<or> e = Send outcome cancels"
    and es: "\<forall>e'\<in>set es. e' \<noteq> Settle k"
  shows "calls_by k (foldl (step offline) s (e # es @ Settle k # es')) =
           calls_by k s @ [OnError (str ''HTTP '' @ status)]"
proof -
  let ?s1 = "step offline s e"
  let ?s2 = "foldl (step offline) ?s1 es"
  let ?s3 = "step offline ?s2 (Settle k)"
  note 1 = abort_current [OF c k e, of offline]
  from 1 have k1: "k < length (ops ?s1)" by simp
  note 2 = foldl_step_other [OF es k1, of offline]
  from 2 have k2: "k < length (ops ?s2)" by simp
  from 1 2 w have w2: "fst (ops ?s2 ! k) = AwaitText status body" by simp
  from 1 2 have a2: "k \<in> set (aborted ?s2)" by auto
  obtain cn where o: "ops ?s2 ! k = (AwaitText status body, cn)"
    using w2 by (cases "ops ?s2 ! k") simp
  have t: "settle (k \<in> set (aborted ?s2)) (AwaitText status body) =
      ([OnError (str ''HTTP '' @ status)], Finished)"
    using a2 by (simp add: settle_def on_catch_def str_def)
  have s3: "?s3 = foldl (deliver offline k cn)
      (?s2\<lparr>ops := (ops ?s2)[k := (Finished, cn)]\<rparr>) [OnError (str ''HTTP '' @ status)]"
    by (rule step_Settle [OF k2 o t])
  have k3: "k < length (ops ?s3)" and f3: "fst (ops ?s3 ! k) = Finished"
    unfolding s3 using k2 by simp_all
  have c2: "calls_by k ?s2 = calls_by k s"
    using foldl_calls_by_other [OF es, of offline ?s1] 1 by simp
  have c3: "calls_by k ?s3 = calls_by k s @ [OnError (str ''HTTP '' @ status)]"
    using calls_by_Settle [OF k2, of k offline] o t c2 by simp
  have "calls_by k (foldl (step offline) ?s3 es') = calls_by k ?s3"
    by (rule finished_stays [OF k3 f3])
  with c3 show ?thesis by simp
qed

lemma emit_calls: "OnError e \<notin> set (emit p)"
  by (auto simp: emit_def Let_def split: if_splits)

lemma for_lines_calls:
  "for_lines ls = (cs, f) \<Longrightarrow>
   (\<forall>e. OnError e \<notin> set cs) \<and> (f = Return \<longrightarrow> cs \<noteq> [] \<and> last cs = OnComplete)"
proof (induction ls arbitrary: cs f)
  case Nil
  then show ?case by auto
next
  case (Cons l ls)
  obtain cs' f' where r: "for_lines ls = (cs', f')" by (cases "for_lines ls")
  note IH = Cons.IH [OF r]
  show ?case
  proof (cases "trim l = []")
    case True
    with Cons.prems r IH show ?thesis by simp
  next
    case False
    show ?thesis
    proof (cases "startsWith l (str ''data: '') \<and> slice_from l 6 = str ''[DONE]''")
      case True
      with False Cons.prems show ?thesis by (auto simp: Let_def)
    next
      case no: False
      let ?p = "if startsWith l (str ''data: '') then slice_from l 6 else l"
      from False no Cons.prems r have cs: "cs = emit ?p @ cs'" and f: "f = f'"
        by (auto simp: Let_def split: if_splits)
      have "\<forall>e. OnError e \<notin> set (emit ?p)" by (simp add: emit_calls)
      with IH show ?thesis unfolding cs f by auto
    qed
  qed
qed

lemma cancelled_in_callback:
  assumes c: "abortRef s = Some k" and k: "k < length (ops s)"
    and w: "fst (ops s ! k) = AwaitRead td buffer (Value v # rs)"
    and na: "k \<notin> set (aborted s)"
    and d: "decode td v = (td', tx)"
    and l: "for_lines (complete_lines (buffer @ tx)) = (cs, f)"
    and x: "OnChunk x \<in> set cs" "snd (ops s ! k) x"
  shows "calls_by k (step offline s (Settle k)) = calls_by k s @ cs \<and>
         k \<in> set (aborted (step offline s (Settle k))) \<and>
         (f = Return \<longrightarrow>
            calls_by k (foldl (step offline) s (Settle k # later)) = calls_by k s @ cs) \<and>
         (f = Continue \<and> (\<forall>e'\<in>set es. e' \<noteq> Settle k) \<longrightarrow>
            calls_by k (foldl (step offline) s (Settle k # es @ Settle k # es')) =
              calls_by k s @ cs @ [OnError (str ''Request cancelled'')])"
proof -
  let ?op' = "case f of Return \<Rightarrow> Finished
                | Continue \<Rightarrow> AwaitRead td' (last (split_on 0x0A (buffer @ tx))) rs"
  let ?s1 = "step offline s (Settle k)"
  obtain cn where o: "ops s ! k = (AwaitRead td buffer (Value v # rs), cn)"
    using w by (cases "ops s ! k") simp
  with x(2) have cn: "cn x" by simp
  have t: "settle (k \<in> set (aborted s)) (AwaitRead td buffer (Value v # rs)) = (cs, ?op')"
    using na d l by (cases f) (simp_all add: settle_def complete_lines_def Let_def)
  have s1: "?s1 = foldl (deliver offline k cn) (s\<lparr>ops := (ops s)[k := (?op', cn)]\<rparr>) cs"
    by (rule step_Settle [OF k o t])
  have k1: "k < length (ops ?s1)" and o1: "fst (ops ?s1 ! k) = ?op'"
    unfolding s1 using k by simp_all
  have "abortRef (s\<lparr>ops := (ops s)[k := (?op', cn)]\<rparr>) = Some k" by (simp add: c)
  then have "k \<in> set (aborted (foldl (deliver offline k cn)
      (s\<lparr>ops := (ops s)[k := (?op', cn)]\<rparr>) cs))"
    using x(1) cn by (rule foldl_deliver_cancels)
  then have a1: "k \<in> set (aborted ?s1)" by (simp only: s1)
  have c1: "calls_by k ?s1 = calls_by k s @ cs"
    using calls_by_Settle [OF k, of k offline] o t by simp
  have "calls_by k (foldl (step offline) s (Settle k # later)) = calls_by k s @ cs" if "f = Return"
  proof -
    from that o1 have "fst (ops ?s1 ! k) = Finished" by simp
    from finished_stays [OF k1 this, of offline later] c1 show ?thesis by simp
  qed
  moreover have "calls_by k (foldl (step offline) s (Settle k # es @ Settle k # es')) =
      calls_by k s @ cs @ [OnError (str ''Request cancelled'')]"
    if "f = Continue" and es: "\<forall>e'\<in>set es. e' \<noteq> Settle k"
  proof -
    from that o1 have "awaits_fetch_or_read (fst (ops ?s1 ! k))" by simp
    from aborted_while_waiting [OF k1 this a1 es, of offline es'] c1 show ?thesis by simp
  qed
  ultimately show ?thesis using c1 a1 by simp
qed

text \<open>
  Claim C5, as stated, fails: a request that has delivered one fragment and waits for its
  next read is cancelled by \<open>cancel\<close>. It then calls \<open>onError\<close> with the text
  \<open>Request cancelled\<close>, and the hook, while online, stores that text in its \<open>error\<close>
  observable. The same happens when a second \<open>send\<close> takes the place of \<open>cancel\<close>.
\<close>

theorem cancelled_send_counterexample:
  "calls_by 0 (foldl (step False) new_session
      [Send two_fragments no_cancel, Settle 0, Settle 0, Cancel, Settle 0]) =
     [Extract (str ''0:\"Hi\"''), OnChunk (str ''Hi''), OnError (str ''Request cancelled'')] \<and>
   observables (foldl (step False) new_session
      [Send two_fragments no_cancel, Settle 0, Settle 0, Cancel, Settle 0]) =
     \<lparr>isLoading = False, error = Some (str ''Request cancelled'')\<rparr> \<and>
   observables (foldl (step False) new_session
      [Send two_fragments no_cancel, Settle 0, Settle 0, Send two_fragments no_cancel, Settle 0]) =
     \<lparr>isLoading = False, error = Some (str ''Request cancelled'')\<rparr>"
  by code_simp

text \<open>
  Claim C5, amended. Let \<open>cancel\<close> or a later \<open>send\<close> abort the controller of a request
  that was not aborted before.

  \<^item> If the request waits for its \<open>fetch\<close> or for a \<open>read\<close>, then, whatever other requests do
    in the meantime and whatever its stream still holds, it makes exactly one more call,
    \<open>onError\<close> with \<open>Request cancelled\<close>: no fragment and no \<open>onComplete\<close> follow the abort.
    The hook stores that text in its \<open>error\<close> observable, or the offline text when the
    device is offline, and clears \<open>isLoading\<close>, also when the request of a later \<open>send\<close> is
    in flight.
  \<^item> If the request waits for the text of a response that is not ok, its one more call is
    \<open>onError\<close> with \<open>HTTP\<close> and the status, without the text and without a word of the
    cancellation.

  When the \<open>onChunk\<close> of a request that is not aborted and is the last one sent calls
  \<open>cancel\<close>, the calls for all complete lines of the chunk in hand are still made, those for the
  fragments behind the abort included, and none of them is \<open>onError\<close>. If the sentinel line
  is among them, the request ends there with \<open>onComplete\<close> and never reports the
  cancellation; if it is not, and the stream holds more chunks, the one more call of the
  request is \<open>onError\<close> with \<open>Request cancelled\<close>. A request that has ended makes no
  further call.
\<close>

theorem cancelled_operation_reports:
  "(abortRef s = Some k \<and> k < length (ops s) \<and> k \<notin> set (aborted s) \<and>
    awaits_fetch_or_read (fst (ops s ! k)) \<and>
    (e = Cancel \<or> e = Send outcome cancels) \<and> (\<forall>e'\<in>set es. e' \<noteq> Settle k) \<longrightarrow>
      calls_by k (foldl (step offline) s (e # es @ Settle k # es')) =
        calls_by k s @ [OnError (str ''Request cancelled'')] \<and>
      observables (foldl (step offline) s (e # es @ [Settle k])) =
        \<lparr>isLoading = False, error = Some (friendly offline (str ''Request cancelled''))\<rparr>) \<and>
   (abortRef s = Some k \<and> k < length (ops s) \<and> k \<notin> set (aborted s) \<and>
    fst (ops s ! k) = AwaitText status body \<and>
    (e = Cancel \<or> e = Send outcome cancels) \<and> (\<forall>e'\<in>set es. e' \<noteq> Settle k) \<longrightarrow>
      calls_by k (foldl (step offline) s (e # es @ Settle k # es')) =
        calls_by k s @ [OnError (str ''HTTP '' @ status)]) \<and>
   (abortRef s = Some k \<and> k < length (ops s) \<and>
    fst (ops s ! k) = AwaitRead td buffer (Value v # rs) \<and> k \<notin> set (aborted s) \<and>
    decode td v = (td', tx) \<and> for_lines (complete_lines (buffer @ tx)) = (cs, f) \<and>
    OnChunk x \<in> set cs \<and> snd (ops s ! k) x \<longrightarrow>
      calls_by k (step offline s (Settle k)) = calls_by k s @ cs \<and>
      k \<in> set (aborted (step offline s (Settle k))) \<and>
      (\<forall>m. OnError m \<notin> set cs) \<and>
      (f = Return \<longrightarrow>
         last cs = OnComplete \<and>
         calls_by k (foldl (step offline) s (Settle k # es')) = calls_by k s @ cs) \<and>
      (f = Continue \<and> rs \<noteq> [] \<and> (\<forall>e'\<in>set es. e' \<noteq> Settle k) \<longrightarrow>
         calls_by k (foldl (step offline) s (Settle k # es @ Settle k # es')) =
           calls_by k s @ cs @ [OnError (str ''Request cancelled'')])) \<and>
   (k < length (ops s) \<and> fst (ops s ! k) = Finished \<longrightarrow>
      calls_by k (foldl (step offline) s es) = calls_by k s)"
proof (intro conjI impI)
  assume a: "abortRef s = Some k \<and> k < length (ops s) \<and> k \<notin> set (aborted s) \<and>
    awaits_fetch_or_read (fst (ops s ! k)) \<and>
    (e = Cancel \<or> e = Send outcome cancels) \<and> (\<forall>e'\<in>set es. e' \<noteq> Settle k)"
  then have c: "abortRef s = Some k" and k: "k < length (ops s)"
    and w: "awaits_fetch_or_read (fst (ops s ! k))"
    and e: "e = Cancel \<or> e = Send outcome cancels" and es: "\<forall>e'\<in>set es. e' \<noteq> Settle k"
    by simp_all
  note r = cancelled_while_waiting [OF c k w e es]
  show "calls_by k (foldl (step offline) s (e # es @ Settle k # es')) =
      calls_by k s @ [OnError (str ''Request cancelled'')]"
    by (rule conjunct1 [OF r])
  show "observables (foldl (step offline) s (e # es @ [Settle k])) =
      \<lparr>isLoading = False, error = Some (friendly offline (str ''Request cancelled''))\<rparr>"
    by (rule conjunct2 [OF r [of offline "[]"]])
next
  assume a: "abortRef s = Some k \<and> k < length (ops s) \<and> k \<notin> set (aborted s) \<and>
    fst (ops s ! k) = AwaitText status body \<and>
    (e = Cancel \<or> e = Send outcome cancels) \<and> (\<forall>e'\<in>set es. e' \<noteq> Settle k)"
  then have c: "abortRef s = Some k" and k: "k < length (ops s)"
    and w: "fst (ops s ! k) = AwaitText status body"
    and e: "e = Cancel \<or> e = Send outcome cancels" and es: "\<forall>e'\<in>set es. e' \<noteq> Settle k"
    by simp_all
  show "calls_by k (foldl (step offline) s (e # es @ Settle k # es')) =
      calls_by k s @ [OnError (str ''HTTP '' @ status)]"
    by (rule cancelled_while_text [OF c k w e es])
next
  assume a: "abortRef s = Some k \<and> k < length (ops s) \<and>
    fst (ops s ! k) = AwaitRead td buffer (Value v # rs) \<and> k \<notin> set (aborted s) \<and>
    decode td v = (td', tx) \<and> for_lines (complete_lines (buffer @ tx)) = (cs, f) \<and>
    OnChunk x \<in> set cs \<and> snd (ops s ! k) x"
  then have c: "abortRef s = Some k" and k: "k < length (ops s)"
    and w: "fst (ops s ! k) = AwaitRead td buffer (Value v # rs)"
    and na: "k \<notin> set (aborted s)" and d: "decode td v = (td', tx)"
    and l: "for_lines (complete_lines (buffer @ tx)) = (cs, f)"
    and x: "OnChunk x \<in> set cs" "snd (ops s ! k) x"
    by simp_all
  note r = cancelled_in_callback [OF c k w na d l x,
      where offline = offline and later = es' and es = es and es' = es']
  show "calls_by k (step offline s (Settle k)) = calls_by k s @ cs"
    by (rule conjunct1 [OF r])
  show "k \<in> set (aborted (step offline s (Settle k)))"
    by (rule conjunct1 [OF conjunct2 [OF r]])
  from for_lines_calls [OF l] show "\<forall>m. OnError m \<notin> set cs" by simp
  show "last cs = OnComplete" if "f = Return"
    using for_lines_calls [OF l] that by simp
  show "calls_by k (foldl (step offline) s (Settle k # es')) = calls_by k s @ cs" if "f = Return"
    using r that by simp
  show "calls_by k (foldl (step offline) s (Settle k # es @ Settle k # es')) =
      calls_by k s @ cs @ [OnError (str ''Request cancelled'')]"
    if "f = Continue \<and> rs \<noteq> [] \<and> (\<forall>e'\<in>set es. e' \<noteq> Settle k)"
    using r that by simp
next
  assume "k < length (ops s) \<and> fst (ops s ! k) = Finished"
  then show "calls_by k (foldl (step offline) s es) = calls_by k s"
    by (simp add: finished_stays)
qed


theorem cancelled_operation_reports_witness:
  "calls_by 0 (foldl (step False) new_session
      [Send two_fragments no_cancel, Settle 0, Settle 0,
       Send two_fragments no_cancel, Settle 1, Settle 0, Settle 0, Settle 1]) =
     [Extract (str ''0:\"Hi\"''), OnChunk (str ''Hi''), OnError (str ''Request cancelled'')] \<and>
   observables (foldl (step False) new_session
      [Send two_fragments no_cancel, Settle 0, Settle 0,
       Send two_fragments no_cancel, Settle 1, Settle 0]) =
     \<lparr>isLoading = False, error = Some (str ''Request cancelled'')\<rparr> \<and>
   calls_by 0 (foldl (step False) new_session
      [Send server_error no_cancel, Settle 0, Cancel, Settle 0]) =
     [OnError (str ''HTTP 500 Internal Server Error'')] \<and>
   calls_by 0 (foldl (step False) new_session
      [Send fragments_and_sentinel (cancel_on (str ''Hi'')), Settle 0, Settle 0, Settle 0]) =
     [Extract (str ''0:\"Hi\"''), OnChunk (str ''Hi''),
      Extract (str ''0:\" there\"''), OnChunk (str '' there''), OnComplete] \<and>
   calls_by 0 (foldl (step False) new_session
      [Send three_fragments (cancel_on (str ''Hi'')), Settle 0, Settle 0, Settle 0, Settle 0]) =
     [Extract (str ''0:\"Hi\"''), OnChunk (str ''Hi''),
      Extract (str ''0:\" there\"''), OnChunk (str '' there''),
      OnError (str ''Request cancelled'')] \<and>
   calls_by 0 (foldl (step False) new_session
      [Send two_fragments no_cancel, Settle 0, Settle 0, Settle 0, Settle 0, Cancel, Settle 0]) =
     [Extract (str ''0:\"Hi\"''), OnChunk (str ''Hi''),
      Extract (str ''0:\" there\"''), OnChunk (str '' there''), OnComplete]"
proof -
  let ?S1 = "foldl (step False) new_session [Send two_fragments no_cancel, Settle 0, Settle 0]"
  let ?E = "Send two_fragments no_cancel"
  have a1: "abortRef ?S1 = Some 0" by code_simp
  have b1: "0 < length (ops ?S1)" by code_simp
  have n1: "0 \<notin> set (aborted ?S1)" by code_simp
  have c1: "awaits_fetch_or_read (fst (ops ?S1 ! 0))" by code_simp
  have d1: "?E = Cancel \<or> ?E = Send two_fragments no_cancel" by (rule disjI2) (rule refl)
  have e1: "\<forall>e'\<in>set [Settle 1]. e' \<noteq> Settle 0" by simp
  note w1 = mp [OF conjunct1 [OF cancelled_operation_reports
        [where s = ?S1 and k = 0 and e = ?E and es = "[Settle 1]" and es' = "[Settle 0, Settle 1]"
           and offline = False and outcome = two_fragments and cancels = no_cancel]]
      conjI [OF a1 conjI [OF b1 conjI [OF n1 conjI [OF c1 conjI [OF d1 e1]]]]]]
  have v1: "calls_by 0 ?S1 = [Extract (str ''0:\"Hi\"''), OnChunk (str ''Hi'')]" by code_simp
  have f1: "friendly False (str ''Request cancelled'') = str ''Request cancelled''" by code_simp
  have r1: "calls_by 0 (foldl (step False) new_session
      [Send two_fragments no_cancel, Settle 0, Settle 0,
       Send two_fragments no_cancel, Settle 1, Settle 0, Settle 0, Settle 1]) =
     [Extract (str ''0:\"Hi\"''), OnChunk (str ''Hi''), OnError (str ''Request cancelled'')]"
  proof -
    have "foldl (step False) new_session
        [Send two_fragments no_cancel, Settle 0, Settle 0,
         Send two_fragments no_cancel, Settle 1, Settle 0, Settle 0, Settle 1] =
        foldl (step False) ?S1 (?E # [Settle 1] @ Settle 0 # [Settle 0, Settle 1])"
      by (simp only: foldl_Cons foldl_Nil foldl_append append.simps)
    then have "calls_by 0 (foldl (step False) new_session
        [Send two_fragments no_cancel, Settle 0, Settle 0,
         Send two_fragments no_cancel, Settle 1, Settle 0, Settle 0, Settle 1]) =
        calls_by 0 (foldl (step False) ?S1 (?E # [Settle 1] @ Settle 0 # [Settle 0, Settle 1]))"
      by (rule arg_cong)
    also have "\<dots> = calls_by 0 ?S1 @ [OnError (str ''Request cancelled'')]"
      by (rule conjunct1 [OF w1])
    also have "\<dots> = [Extract (str ''0:\"Hi\"''), OnChunk (str ''Hi''),
        OnError (str ''Request cancelled'')]"
      by (simp only: v1 append.simps)
    finally show ?thesis .
  qed
  have r2: "observables (foldl (step False) new_session
      [Send two_fragments no_cancel, Settle 0, Settle 0,
       Send two_fragments no_cancel, Settle 1, Settle 0]) =
     \<lparr>isLoading = False, error = Some (str ''Request cancelled'')\<rparr>"
  proof -
    have "foldl (step False) new_session
        [Send two_fragments no_cancel, Settle 0, Settle 0,
         Send two_fragments no_cancel, Settle 1, Settle 0] =
        foldl (step False) ?S1 (?E # [Settle 1] @ [Settle 0])"
      by (simp only: foldl_Cons foldl_Nil foldl_append append.simps)
    then have "observables (foldl (step False) new_session
        [Send two_fragments no_cancel, Settle 0, Settle 0,
         Send two_fragments no_cancel, Settle 1, Settle 0]) =
        observables (foldl (step False) ?S1 (?E # [Settle 1] @ [Settle 0]))"
      by (rule arg_cong)
    also have "\<dots> =
        \<lparr>isLoading = False, error = Some (friendly False (str ''Request cancelled''))\<rparr>"
      by (rule conjunct2 [OF w1])
    also have "\<dots> = \<lparr>isLoading = False, error = Some (str ''Request cancelled'')\<rparr>"
      by (simp only: f1)
    finally show ?thesis .
  qed

  let ?S2 = "foldl (step False) new_session [Send server_error no_cancel, Settle 0]"
  have a2: "abortRef ?S2 = Some 0" by code_simp
  have b2: "0 < length (ops ?S2)" by code_simp
  have n2: "0 \<notin> set (aborted ?S2)" by code_simp
  have c2: "fst (ops ?S2 ! 0) =
      AwaitText (str ''500 Internal Server Error'') (str ''out of service'')" by code_simp
  have d2: "Cancel = Cancel \<or> Cancel = Send two_fragments no_cancel" by (rule disjI1) (rule refl)
  have e2: "\<forall>e'\<in>set []. e' \<noteq> Settle 0" by simp
  note w2 = mp [OF conjunct1 [OF conjunct2 [OF cancelled_operation_reports
        [where s = ?S2 and k = 0 and e = Cancel and es = "[]" and es' = "[]"
           and offline = False and outcome = two_fragments and cancels = no_cancel]]]
      conjI [OF a2 conjI [OF b2 conjI [OF n2 conjI [OF c2 conjI [OF d2 e2]]]]]]
  have v2: "calls_by 0 ?S2 = []" by code_simp
  have h2: "str ''HTTP '' @ str ''500 Internal Server Error'' =
      str ''HTTP 500 Internal Server Error''" by (simp add: str_def)
  have r3: "calls_by 0 (foldl (step False) new_session
      [Send server_error no_cancel, Settle 0, Cancel, Settle 0]) =
     [OnError (str ''HTTP 500 Internal Server Error'')]"
  proof -
    have "foldl (step False) new_session
        [Send server_error no_cancel, Settle 0, Cancel, Settle 0] =
        foldl (step False) ?S2 (Cancel # [] @ Settle 0 # [])"
      by (simp only: foldl_Cons foldl_Nil foldl_append append.simps)
    then have "calls_by 0 (foldl (step False) new_session
        [Send server_error no_cancel, Settle 0, Cancel, Settle 0]) =
        calls_by 0 (foldl (step False) ?S2 (Cancel # [] @ Settle 0 # []))"
      by (rule arg_cong)
    also have "\<dots> = calls_by 0 ?S2 @
        [OnError (str ''HTTP '' @ str ''500 Internal Server Error'')]"
      by (rule w2)
    also have "\<dots> = [OnError (str ''HTTP 500 Internal Server Error'')]"
      by (simp only: v2 append.simps h2)
    finally show ?thesis .
  qed

  let ?S3 = "foldl (step False) new_session
      [Send fragments_and_sentinel (cancel_on (str ''Hi'')), Settle 0]"
  let ?v = "bytes ''data: 0:\"Hi\"\<newline>data: 0:\" there\"\<newline>data: [DONE]\<newline>''"
  let ?rs = "[Value (bytes ''data: 0:\" again\"\<newline>'')]"
  let ?td' = "fst (decode new_TextDecoder ?v)"
  let ?tx = "snd (decode new_TextDecoder ?v)"
  let ?cs = "[Extract (str ''0:\"Hi\"''), OnChunk (str ''Hi''),
      Extract (str ''0:\" there\"''), OnChunk (str '' there''), OnComplete]"
  have a3: "abortRef ?S3 = Some 0" by code_simp
  have b3: "0 < length (ops ?S3)" by code_simp
  have c3: "fst (ops ?S3 ! 0) = AwaitRead new_TextDecoder [] (Value ?v # ?rs)" by code_simp
  have d3: "0 \<notin> set (aborted ?S3)" by code_simp
  have e3: "decode new_TextDecoder ?v = (?td', ?tx)" by simp
  have f3: "for_lines (complete_lines ([] @ ?tx)) = (?cs, Return)" by code_simp
  have g3: "OnChunk (str ''Hi'') \<in> set ?cs" by simp
  have h3: "snd (ops ?S3 ! 0) (str ''Hi'')" by code_simp
  note w3 = mp [OF conjunct1 [OF conjunct2 [OF conjunct2 [OF cancelled_operation_reports
        [where s = ?S3 and k = 0 and es' = "[Settle 0]" and offline = False
           and td = new_TextDecoder and buffer = "[]" and v = ?v and rs = ?rs and td' = ?td'
           and tx = ?tx and cs = ?cs and f = Return and x = "str ''Hi''"]]]]
      conjI [OF a3 conjI [OF b3 conjI [OF c3 conjI [OF d3 conjI [OF e3 conjI [OF f3
        conjI [OF g3 h3]]]]]]]]
  note u3 = conjunct2 [OF mp [OF conjunct1 [OF conjunct2 [OF conjunct2 [OF conjunct2 [OF w3]]]] refl]]
  have v3: "calls_by 0 ?S3 = []" by code_simp
  have r4: "calls_by 0 (foldl (step False) new_session
      [Send fragments_and_sentinel (cancel_on (str ''Hi'')), Settle 0, Settle 0, Settle 0]) =
     [Extract (str ''0:\"Hi\"''), OnChunk (str ''Hi''),
      Extract (str ''0:\" there\"''), OnChunk (str '' there''), OnComplete]"
  proof -
    have "foldl (step False) new_session
        [Send fragments_and_sentinel (cancel_on (str ''Hi'')), Settle 0, Settle 0, Settle 0] =
        foldl (step False) ?S3 (Settle 0 # [Settle 0])"
      by (simp only: foldl_Cons foldl_Nil foldl_append append.simps)
    then have "calls_by 0 (foldl (step False) new_session
        [Send fragments_and_sentinel (cancel_on (str ''Hi'')), Settle 0, Settle 0, Settle 0]) =
        calls_by 0 (foldl (step False) ?S3 (Settle 0 # [Settle 0]))"
      by (rule arg_cong)
    also have "\<dots> = calls_by 0 ?S3 @ ?cs" by (rule u3)
    also have "\<dots> = ?cs" by (simp only: v3 append.simps)
    finally show ?thesis .
  qed

  let ?S5 = "foldl (step False) new_session
      [Send three_fragments (cancel_on (str ''Hi'')), Settle 0]"
  let ?v5 = "bytes ''data: 0:\"Hi\"\<newline>data: 0:\" there\"\<newline>''"
  let ?td5 = "fst (decode new_TextDecoder ?v5)"
  let ?tx5 = "snd (decode new_TextDecoder ?v5)"
  let ?cs5 = "[Extract (str ''0:\"Hi\"''), OnChunk (str ''Hi''),
      Extract (str ''0:\" there\"''), OnChunk (str '' there'')]"
  have a5: "abortRef ?S5 = Some 0" by code_simp
  have b5: "0 < length (ops ?S5)" by code_simp
  have c5: "fst (ops ?S5 ! 0) = AwaitRead new_TextDecoder [] (Value ?v5 # ?rs)" by code_simp
  have d5: "0 \<notin> set (aborted ?S5)" by code_simp
  have e5: "decode new_TextDecoder ?v5 = (?td5, ?tx5)" by simp
  have f5: "for_lines (complete_lines ([] @ ?tx5)) = (?cs5, Continue)" by code_simp
  have g5: "OnChunk (str ''Hi'') \<in> set ?cs5" by simp
  have h5: "snd (ops ?S5 ! 0) (str ''Hi'')" by code_simp
  have i5: "Continue = Continue \<and> ?rs \<noteq> [] \<and> (\<forall>e'\<in>set []. e' \<noteq> Settle 0)" by simp
  note w5 = mp [OF conjunct1 [OF conjunct2 [OF conjunct2 [OF cancelled_operation_reports
        [where s = ?S5 and k = 0 and es = "[]" and es' = "[Settle 0]" and offline = False
           and td = new_TextDecoder and buffer = "[]" and v = ?v5 and rs = ?rs and td' = ?td5
           and tx = ?tx5 and cs = ?cs5 and f = Continue and x = "str ''Hi''"]]]]
      conjI [OF a5 conjI [OF b5 conjI [OF c5 conjI [OF d5 conjI [OF e5 conjI [OF f5
        conjI [OF g5 h5]]]]]]]]
  note u5 = mp [OF conjunct2 [OF conjunct2 [OF conjunct2 [OF conjunct2 [OF w5]]]] i5]
  have v5: "calls_by 0 ?S5 = []" by code_simp
  have r4b: "calls_by 0 (foldl (step False) new_session
      [Send three_fragments (cancel_on (str ''Hi'')), Settle 0, Settle 0, Settle 0, Settle 0]) =
     [Extract (str ''0:\"Hi\"''), OnChunk (str ''Hi''),
      Extract (str ''0:\" there\"''), OnChunk (str '' there''),
      OnError (str ''Request cancelled'')]"
  proof -
    have "foldl (step False) new_session
        [Send three_fragments (cancel_on (str ''Hi'')), Settle 0, Settle 0, Settle 0, Settle 0] =
        foldl (step False) ?S5 (Settle 0 # [] @ Settle 0 # [Settle 0])"
      by (simp only: foldl_Cons foldl_Nil foldl_append append.simps)
    then have "calls_by 0 (foldl (step False) new_session
        [Send three_fragments (cancel_on (str ''Hi'')), Settle 0, Settle 0, Settle 0, Settle 0]) =
        calls_by 0 (foldl (step False) ?S5 (Settle 0 # [] @ Settle 0 # [Settle 0]))"
      by (rule arg_cong)
    also have "\<dots> = calls_by 0 ?S5 @ ?cs5 @ [OnError (str ''Request cancelled'')]" by (rule u5)
    also have "\<dots> = [Extract (str ''0:\"Hi\"''), OnChunk (str ''Hi''),
        Extract (str ''0:\" there\"''), OnChunk (str '' there''),
        OnError (str ''Request cancelled'')]"
      by (simp only: v5 append.simps)
    finally show ?thesis .
  qed

  let ?S4 = "foldl (step False) new_session
      [Send two_fragments no_cancel, Settle 0, Settle 0, Settle 0, Settle 0]"
  have a4: "0 < length (ops ?S4)" by code_simp
  have b4: "fst (ops ?S4 ! 0) = Finished" by code_simp
  note w4 = mp [OF conjunct2 [OF conjunct2 [OF conjunct2 [OF cancelled_operation_reports
        [where s = ?S4 and k = 0 and es = "[Cancel, Settle 0]" and offline = False]]]]
      conjI [OF a4 b4]]
  have v4: "calls_by 0 ?S4 = [Extract (str ''0:\"Hi\"''), OnChunk (str ''Hi''),
      Extract (str ''0:\" there\"''), OnChunk (str '' there''), OnComplete]" by code_simp
  have r5: "calls_by 0 (foldl (step False) new_session
      [Send two_fragments no_cancel, Settle 0, Settle 0, Settle 0, Settle 0, Cancel, Settle 0]) =
     [Extract (str ''0:\"Hi\"''), OnChunk (str ''Hi''),
      Extract (str ''0:\" there\"''), OnChunk (str '' there''), OnComplete]"
  proof -
    have "foldl (step False) new_session
        [Send two_fragments no_cancel, Settle 0, Settle 0, Settle 0, Settle 0, Cancel, Settle 0] =
        foldl (step False) ?S4 [Cancel, Settle 0]"
      by (simp only: foldl_Cons foldl_Nil foldl_append append.simps)
    then have "calls_by 0 (foldl (step False) new_session
        [Send two_fragments no_cancel, Settle 0, Settle 0, Settle 0, Settle 0, Cancel, Settle 0]) =
        calls_by 0 (foldl (step False) ?S4 [Cancel, Settle 0])"
      by (rule arg_cong)
    also have "\<dots> = calls_by 0 ?S4" by (rule w4)
    also have "\<dots> = [Extract (str ''0:\"Hi\"''), OnChunk (str ''Hi''),
        Extract (str ''0:\" there\"''), OnChunk (str '' there''), OnComplete]"
      by (rule v4)
    finally show ?thesis .
  qed
  show ?thesis by (rule conjI [OF r1 conjI [OF r2 conjI [OF r3 conjI [OF r4 conjI [OF r4b r5]]]]])
qed

section \<open>The structured renderer (components/chat/ChatUI.tsx)\<close>

text \<open>
  \<open>formatAgentMessage\<close> returns React nodes. The model keeps their structure: the kind of
  each node and its text. Class names and React keys are left out.
\<close>

datatype inline = Strong jstring | Span jstring

datatype row = Labeled jstring jstring | Unlabeled "inline list"

record Section =
  title :: jstring
  rows :: "jstring list"

datatype element =
    H2 jstring
  | Letter jstring "inline list"
  | Ul "inline list list"
  | Par "inline list"

datatype document =
    Sections "(jstring \<times> row list) list"
  | Elements "element list"

definition slice :: "jstring \<Rightarrow> int \<Rightarrow> int \<Rightarrow> jstring" where
  \<comment> \<open>\<open>s.slice(a, b)\<close>; negative indices count from the end\<close>
  "slice s a b =
     (let n = int (length s);
          from = (if a < 0 then max (n + a) 0 else min a n);
          to = (if b < 0 then max (n + b) 0 else min b n)
      in take (nat (to - from)) (drop (nat from) s))"

fun collapse_newlines :: "nat \<Rightarrow> jstring \<Rightarrow> jstring" where
  \<comment> \<open>\<open>replace(/\n{3,}/g, '\n\n')\<close>: of each run of line feeds the first two are kept;
      the counter is the number of line feeds read since the last other code unit\<close>
  "collapse_newlines n [] = []"
| "collapse_newlines n (c # s) =
     (if c = 0x0A then
        (if n < 2 then c # collapse_newlines (Suc n) s else collapse_newlines (Suc n) s)
      else c # collapse_newlines 0 s)"

fun collapse_spaces :: "bool \<Rightarrow> jstring \<Rightarrow> jstring" where
  \<comment> \<open>\<open>replace(/\s+/g, ' ')\<close>: each run of whitespace becomes one space; the flag says
      that the previous code unit was whitespace\<close>
  "collapse_spaces b [] = []"
| "collapse_spaces b (c # s) =
     (if is_space c then (if b then collapse_spaces True s else 0x20 # collapse_spaces True s)
      else c # collapse_spaces False s)"

fun escaped_newlines_to_spaces :: "jstring \<Rightarrow> jstring" where
  \<comment> \<open>\<open>r.replace(/\\n/g, ' ')\<close>\<close>
  "escaped_newlines_to_spaces (a # b # r) =
     (if a = 0x5C \<and> b = 0x6E then 0x20 # escaped_newlines_to_spaces r
      else a # escaped_newlines_to_spaces (b # r))"
| "escaped_newlines_to_spaces r = r"

definition titleRe :: regex where
  \<comment> \<open>\<open>/^-?\s*([A-Za-z .()]+?)(?:\s*[D-]\s*|\s*:\s*)(.*)$/\<close>, where \<open>D\<close> stands for
      the em dash U+2014 of the source\<close>
  "titleRe =
     seqs [Bol, Opt (Lit 0x2D), Rep True 0 is_space,
           Grp 1 (Rep False 1 (\<lambda>c. is_alpha c \<or> c \<in> set (str '' .()''))),
           Alt (seqs [Rep True 0 is_space, Cls (\<lambda>c. c = 0x2014 \<or> c = 0x2D), Rep True 0 is_space])
               (seqs [Rep True 0 is_space, Lit 0x3A, Rep True 0 is_space]),
           Grp 2 (Rep True 0 (\<lambda>c. \<not> is_line_terminator c)), Eol]"

definition bulletRe :: regex where
  \<comment> \<open>\<open>/^-\s+/\<close>\<close>
  "bulletRe = seqs [Bol, Lit 0x2D, Rep True 1 is_space]"

definition labelRe :: regex where
  \<comment> \<open>\<open>/^\s*([A-Za-z ()]+?):\s*(.*)$/\<close>\<close>
  "labelRe =
     seqs [Bol, Rep True 0 is_space,
           Grp 1 (Rep False 1 (\<lambda>c. is_alpha c \<or> c \<in> set (str '' ()''))),
           Lit 0x3A, Rep True 0 is_space,
           Grp 2 (Rep True 0 (\<lambda>c. \<not> is_line_terminator c)), Eol]"

definition boldRe :: regex where
  \<comment> \<open>\<open>/(\*\*[^*]+\*\*)/g\<close>\<close>
  "boldRe =
     Grp 1 (seqs [Lit 0x2A, Lit 0x2A, Rep True 1 (\<lambda>c. c \<noteq> 0x2A), Lit 0x2A, Lit 0x2A])"

definition letterRe :: regex where
  \<comment> \<open>\<open>/^[a-z]\./i\<close>\<close>
  "letterRe = seqs [Bol, Cls is_alpha, Lit 0x2E]"

lemma min_len_boldRe: "0 < min_len boldRe"
  by (simp add: boldRe_def seqs_def Lit_def)

function split_bold :: "jstring \<Rightarrow> jstring list" where
  \<comment> \<open>\<open>text.split(/(\*\*[^*]+\*\*)/g)\<close>: the pieces between the matches, and the matches\<close>
  "split_bold s =
     (case search boldRe 0 s of
        None \<Rightarrow> [s]
      | Some m \<Rightarrow> take (m_index m) s # group 1 m # split_bold (m_rest m))"
  by pat_completeness auto
termination
proof (relation "measure length")
  show "wf (measure length)" by simp
next
  fix s m
  assume "search boldRe 0 s = Some m"
  from search_rest [OF this min_len_boldRe]
  show "(m_rest m, s) \<in> measure length" by simp
qed

declare split_bold.simps [simp del]

definition renderInlineBold :: "jstring \<Rightarrow> inline list" where
  "renderInlineBold t =
     map (\<lambda>part. if startsWith part (str ''**'') \<and> endsWith part (str ''**'')
                  then Strong (slice part 2 (- 2)) else Span part)
       (split_bold t)"

definition emphasizeLabel :: "jstring \<Rightarrow> row" where
  \<comment> \<open>a row that has no label is rendered by \<open>renderInlineBold\<close>\<close>
  "emphasizeLabel r =
     (case search labelRe 0 r of
        None \<Rightarrow> Unlabeled (renderInlineBold r)
      | Some m \<Rightarrow> Labeled (group 1 m) (group 2 m))"

definition section_step :: "Section list \<times> Section option \<Rightarrow> jstring \<Rightarrow> Section list \<times> Section option" where
  \<comment> \<open>the body of the first loop, on the pair of \<open>sections\<close> and \<open>current\<close>\<close>
  "section_step st raw =
     (case st of (sections, current) \<Rightarrow>
        let line = trim raw in
        if line = [] then st
        else
          (case search titleRe 0 line of
             Some m \<Rightarrow>
               ((case current of Some c \<Rightarrow> sections @ [c] | None \<Rightarrow> sections),
                Some \<lparr>title = trim (collapse_spaces False (group 1 m)),
                      rows = (if group 2 m \<noteq> [] then [group 2 m] else [])\<rparr>)
           | None \<Rightarrow>
               (case current of
                  Some c \<Rightarrow>
                    (sections,
                     Some (c\<lparr>rows := rows c @
                       [if regex_test bulletRe line then replace_first bulletRe line [] else line]\<rparr>))
                | None \<Rightarrow> st)))"

definition finish_sections :: "Section list \<times> Section option \<Rightarrow> Section list" where
  \<comment> \<open>\<open>if (current) sections.push(current)\<close>\<close>
  "finish_sections st =
     (case st of (sections, current) \<Rightarrow>
        (case current of Some c \<Rightarrow> sections @ [c] | None \<Rightarrow> sections))"

definition detect_sections :: "jstring list \<Rightarrow> Section list" where
  "detect_sections lines = finish_sections (foldl section_step ([], None) lines)"

definition render_section :: "Section \<Rightarrow> jstring \<times> row list" where
  "render_section sec =
     (title sec,
      map emphasizeLabel
        (filter (\<lambda>r. r \<noteq> []) (map (\<lambda>r. trim (escaped_newlines_to_spaces r)) (rows sec))))"

definition flushList :: "element list \<times> inline list list \<Rightarrow> element list \<times> inline list list" where
  "flushList st =
     (case st of (elements, listBuffer) \<Rightarrow>
        if listBuffer \<noteq> [] then (elements @ [Ul listBuffer], []) else st)"

definition fallback_step ::
  "element list \<times> inline list list \<Rightarrow> jstring \<Rightarrow> element list \<times> inline list list" where
  \<comment> \<open>the body of \<open>lines.forEach\<close>, on the pair of \<open>elements\<close> and \<open>listBuffer\<close>\<close>
  "fallback_step st line =
     (let trimmed = trim line in
      if trimmed = [] then flushList st
      else if startsWith trimmed (str ''**'') \<and> endsWith trimmed (str ''**'') then
        (case flushList st of (elements, listBuffer) \<Rightarrow>
           (elements @ [H2 (slice trimmed 2 (- 2))], listBuffer))
      else if regex_test letterRe trimmed then
        (case flushList st of (elements, listBuffer) \<Rightarrow>
           (elements @ [Letter (slice trimmed 0 2) (renderInlineBold (trim (slice_from trimmed 2)))],
            listBuffer))
      else if startsWith trimmed (str ''- '') then
        (case st of (elements, listBuffer) \<Rightarrow>
           (elements, listBuffer @ [renderInlineBold (slice_from trimmed 2)]))
      else
        (case flushList st of (elements, listBuffer) \<Rightarrow>
           (elements @ [Par (renderInlineBold line)], listBuffer)))"

definition lines_of :: "jstring \<Rightarrow> jstring list" where
  \<comment> \<open>\<open>content.replace(/\r/g, '').replace(/\n{3,}/g, '\n\n').split('\n')\<close>\<close>
  "lines_of content = split_on 0x0A (collapse_newlines 0 (filter (\<lambda>c. c \<noteq> 0x0D) content))"

definition formatAgentMessage :: "jstring \<Rightarrow> document" where
  "formatAgentMessage content =
     (let lines = lines_of content;
          sections = detect_sections lines
      in if sections \<noteq> [] then Sections (map render_section sections)
         else Elements (fst (flushList (foldl fallback_step ([], []) lines))))"

definition sections_of :: "document \<Rightarrow> (jstring \<times> row list) list" where
  "sections_of doc = (case doc of Sections secs \<Rightarrow> secs | Elements es \<Rightarrow> [])"



definition scenario_buffer :: jstring where
  \<comment> \<open>the message buffer of the scenario; its two dashes are em dashes\<close>
  "scenario_buffer = str ''Mumbai '' @ [0x2014] @ str '' Now:\<newline>- Temperature: 28C\<newline>- Humidity: 60%\<newline>Delhi '' @ [0x2014] @ str '' Tomorrow:\<newline>- Temperature: 32C''"

section \<open>Properties of the renderer\<close>

lemma rep_greedy_total:
  assumes "\<And>j s'. k j s' \<noteq> None"
  shows "rep_greedy p n i s k =
           (if n \<le> length (takeWhile p s)
            then k (i + length (takeWhile p s)) (dropWhile p s) else None)"
proof (induction s arbitrary: n i)
  case Nil
  then show ?case by simp
next
  case (Cons c cs)
  show ?case
  proof (cases "p c")
    case False
    then show ?thesis by simp
  next
    case True
    show ?thesis
    proof (cases "n - 1 \<le> length (takeWhile p cs)")
      case le: True
      then have n: "n \<le> Suc (length (takeWhile p cs))" by simp
      obtain r where "k (Suc i + length (takeWhile p cs)) (dropWhile p cs) = Some r"
        using assms [of "Suc i + length (takeWhile p cs)" "dropWhile p cs"] by auto
      with True le n show ?thesis by (simp add: Cons.IH)
    next
      case gt: False
      then have "\<not> n \<le> Suc (length (takeWhile p cs))" "n \<noteq> 0" by simp_all
      with True gt show ?thesis by (simp add: Cons.IH)
    qed
  qed
qed

lemma bulletRe_strip:
  assumes "ws \<noteq> []" "\<forall>c\<in>set ws. is_space c" "r \<noteq> []" "\<not> is_space (hd r)"
  shows "search bulletRe 0 (0x2D # ws @ r) =
           Some \<lparr>m_index = 0, m_groups = [], m_end = Suc (length ws), m_rest = r\<rparr>"
proof -
  let ?K = "\<lambda>i' s'. Some \<lparr>m_index = 0, m_groups = [], m_end = i', m_rest = s'\<rparr>"
  from assms(3) obtain x r' where r: "r = x # r'" by (cases r) auto
  with assms(4) have x: "\<not> is_space x" by simp
  have tw: "takeWhile is_space (ws @ r) = ws"
    using assms(2) x by (simp add: r takeWhile_append2)
  have dw: "dropWhile is_space (ws @ r) = r"
    using assms(2) x by (simp add: r dropWhile_append2)
  have "match_at bulletRe 0 (0x2D # ws @ r) = rep_greedy is_space 1 1 (ws @ r) ?K"
    by (simp add: match_at_def bulletRe_def seqs_def Lit_def)
  also have "\<dots> = (if 1 \<le> length (takeWhile is_space (ws @ r))
            then ?K (1 + length (takeWhile is_space (ws @ r))) (dropWhile is_space (ws @ r))
            else None)"
    by (rule rep_greedy_total) simp
  also have "\<dots> = Some \<lparr>m_index = 0, m_groups = [], m_end = Suc (length ws), m_rest = r\<rparr>"
    unfolding tw dw using assms(1) by (cases ws) simp_all
  finally show ?thesis by simp
qed

text \<open>
  Claim C6, as stated, fails: the rendering of the buffer has five sections. Each bullet
  line has the shape of a title line (an optional dash, a label, a colon), which is tried
  first, so it opens a section of its own.
\<close>

theorem render_scenario_counterexample:
  "formatAgentMessage scenario_buffer =
     Sections
      [(str ''Mumbai'', [Labeled (str ''Now'') []]),
       (str ''Temperature'', [Unlabeled [Span (str ''28C'')]]),
       (str ''Humidity'', [Unlabeled [Span (str ''60%'')]]),
       (str ''Delhi'', [Labeled (str ''Tomorrow'') []]),
       (str ''Temperature'', [Unlabeled [Span (str ''32C'')]])]"
  by code_simp

text \<open>
  Claim C6, amended. In the rendering of the buffer the sections titled \<open>Mumbai\<close> and
  \<open>Delhi\<close> occur once each, in this order, and each starts with the row made of the text
  behind the separator of its title line, split into the label and the rest. And for every
  line under an open section that is not of the title shape and is a dash, whitespace and
  a text \<open>r\<close>: the text \<open>r\<close> is added as the last row of the open section.
\<close>

theorem render_scenario_titles:
  "map (\<lambda>(t, rs). (t, take 1 rs))
     (filter (\<lambda>(t, rs). t = str ''Mumbai'' \<or> t = str ''Delhi'')
        (sections_of (formatAgentMessage scenario_buffer))) =
     [(str ''Mumbai'', [Labeled (str ''Now'') []]),
      (str ''Delhi'', [Labeled (str ''Tomorrow'') []])] \<and>
   (search titleRe 0 (trim l) = None \<and> trim l = 0x2D # ws @ r \<and> ws \<noteq> [] \<and>
    (\<forall>c\<in>set ws. is_space c) \<and> r \<noteq> [] \<and> \<not> is_space (hd r) \<longrightarrow>
      section_step (secs, Some cur) l = (secs, Some (cur\<lparr>rows := rows cur @ [r]\<rparr>)))"
proof (intro conjI impI)
  show "map (\<lambda>(t, rs). (t, take 1 rs))
     (filter (\<lambda>(t, rs). t = str ''Mumbai'' \<or> t = str ''Delhi'')
        (sections_of (formatAgentMessage scenario_buffer))) =
     [(str ''Mumbai'', [Labeled (str ''Now'') []]),
      (str ''Delhi'', [Labeled (str ''Tomorrow'') []])]"
    by code_simp
next
  assume a: "search titleRe 0 (trim l) = None \<and> trim l = 0x2D # ws @ r \<and> ws \<noteq> [] \<and>
    (\<forall>c\<in>set ws. is_space c) \<and> r \<noteq> [] \<and> \<not> is_space (hd r)"
  then have t: "search titleRe 0 (trim l) = None" and l: "trim l = 0x2D # ws @ r"
    and ws: "ws \<noteq> []" "\<forall>c\<in>set ws. is_space c" and r: "r \<noteq> []" "\<not> is_space (hd r)"
    by blast+
  have b: "search bulletRe 0 (trim l) =
      Some \<lparr>m_index = 0, m_groups = [], m_end = Suc (length ws), m_rest = r\<rparr>"
    unfolding l by (rule bulletRe_strip [OF ws r])
  have ne: "trim l \<noteq> []" by (simp add: l)
  show "section_step (secs, Some cur) l = (secs, Some (cur\<lparr>rows := rows cur @ [r]\<rparr>))"
    using ne by (simp add: section_step_def Let_def t b regex_test_def replace_first_def)
qed

theorem render_scenario_titles_witness:
  "section_step ([], Some \<lparr>title = str ''Mumbai'', rows = [str ''Now:'']\<rparr>) (str '' -  28C today '') =
     ([], Some \<lparr>title = str ''Mumbai'', rows = [str ''Now:'', str ''28C today'']\<rparr>)"
proof -
  let ?l = "str '' -  28C today ''"
  have h: "search titleRe 0 (trim ?l) = None \<and> trim ?l = 0x2D # str ''  '' @ str ''28C today'' \<and>
    str ''  '' \<noteq> [] \<and> (\<forall>c\<in>set (str ''  ''). is_space c) \<and> str ''28C today'' \<noteq> [] \<and>
    \<not> is_space (hd (str ''28C today''))"
    by code_simp
  have "section_step ([], Some \<lparr>title = str ''Mumbai'', rows = [str ''Now:'']\<rparr>) ?l =
      ([], Some (\<lparr>title = str ''Mumbai'', rows = [str ''Now:'']\<rparr>
                  \<lparr>rows := rows \<lparr>title = str ''Mumbai'', rows = [str ''Now:'']\<rparr> @
                     [str ''28C today'']\<rparr>))"
    by (rule mp [OF conjunct2 [OF render_scenario_titles [of ?l "str ''  ''" "str ''28C today''" "[]"
      "\<lparr>title = str ''Mumbai'', rows = [str ''Now:'']\<rparr>"]] h])
  then show ?thesis by simp
qed



lemma trim_Nil [simp]: "trim [] = []"
  by (simp add: trim_def trimStart_def trimEnd_def)



































lemma lines_of_split: "lines_of s = butlast (lines_of s) @ [last (lines_of s)]"
  by (simp add: lines_of_def)



















text \<open>
  Two buffers in which more than the last unit changes. A line separator appended to a
  title line takes the title shape from it: the line becomes a row of the section before,
  which so changes although it was not the last one. And a lone dash is a paragraph until
  a space and a text follow it: then it is an item of the list before it.
\<close>

lemma render_line_separator_example:
  "formatAgentMessage (str ''A: 1\<newline>B: 2'') =
     Sections [(str ''A'', [Unlabeled [Span (str ''1'')]]),
               (str ''B'', [Unlabeled [Span (str ''2'')]])] \<and>
   formatAgentMessage (str ''A: 1\<newline>B: 2'' @ 0x2028 # str ''x'') =
     Sections [(str ''A'', [Unlabeled [Span (str ''1'')],
                            Unlabeled [Span (str ''B: 2'' @ 0x2028 # str ''x'')]])]"
  by code_simp

lemma render_list_example:
  "formatAgentMessage (str ''Hello\<newline>- a\<newline>-'') =
     Elements [Par [Span (str ''Hello'')], Ul [[Span (str ''a'')]], Par [Span (str ''-'')]] \<and>
   formatAgentMessage (str ''Hello\<newline>- a\<newline>-'' @ str '' b'') =
     Elements [Par [Span (str ''Hello'')], Ul [[Span (str ''a'')], [Span (str ''b'')]]]"
  by code_simp



end
